theory Spec2Isabelle
  imports Main
begin

section \<open>The operator onErrorResumeNext (src/internal/operators/onErrorResumeNext.ts)\<close>

text \<open>
  The operator keeps an array \<open>remaining = [source, ...nextSources]\<close> and a closure
  \<open>subscribeNext\<close> that shifts the front entry out of the array, converts it with
  \<open>innerFrom\<close>, subscribes it through a fresh \<open>OperatorSubscriber\<close> and registers
  itself as a teardown of that subscriber. The model below is a state machine over
  the objects the closure touches: the array store, the downstream \<open>subscriber\<close> and the
  inner subscribers created so far.
\<close>

subsection \<open>Notifications, producers and queue entries\<close>

datatype ('a, 'e) notif = Next 'a | Error 'e | Complete

text \<open>
  What a producer does during the call \<open>nextSource.subscribe(innerSub)\<close>: it pushes
  notifications into \<open>innerSub\<close>, and the consumer may react to a value by unsubscribing
  the downstream subscriber before the call returns (\<open>Cancel\<close>, the \<open>take(3)\<close> of the
  comment at lines 98-101).
\<close>

datatype ('a, 'e) sact = Notify "('a, 'e) notif" | Cancel

text \<open>
  Modelled from the spec: \<open>innerFrom\<close> (imported from ../observable/from) is not among
  the sources; by the spec's contract for source conversion it either returns a
  subscribable source or fails synchronously, before any subscription. So an entry of
  \<open>remaining\<close>, an \<open>ObservableInput\<close>, is either one on which \<open>innerFrom\<close> throws
  (\<open>Invalid\<close>), or one that yields an observable, given by what it does synchronously
  when subscribed (\<open>Src\<close>). What the observable does later arrives as an \<open>event\<close>.
\<close>

datatype ('a, 'e) entry = Invalid | Src "('a, 'e) sact list"

text \<open>
  What happens after the subscribe call has returned: the producer of the entry at
  position \<open>k\<close> of \<open>[source, ...nextSources]\<close> pushes a notification into its inner
  subscriber, or the consumer unsubscribes the downstream subscriber.
\<close>

datatype ('a, 'e) event = Emit nat "('a, 'e) notif" | Unsubscribe

subsection \<open>Subscribers\<close>

text \<open>
  Modelled from the spec: the classes \<open>Subscription\<close>, \<open>Subscriber\<close> and
  \<open>OperatorSubscriber\<close> (imported from ../Subscription, ../Subscriber and
  ./OperatorSubscriber) are not among the sources. The spec's data model gives a
  subscription \<open>unsubscribe()\<close>, idempotent and cancelling everything it owns, and
  \<open>addTeardown(action)\<close>, whose action runs exactly once when the subscription
  finalizes (at once when it already has); a subscriber accepts no notification after
  its terminal one. An inner subscriber is \<open>new OperatorSubscriber(subscriber,
  undefined, noop, noop)\<close>: it is owned by \<open>subscriber\<close>, passes \<open>next\<close> to it and
  answers \<open>error\<close> and \<open>complete\<close> with \<open>noop\<close> followed by its own unsubscription.
  \<open>src\<close> is the position in \<open>[source, ...nextSources]\<close> of the entry the inner
  subscriber was created for; \<open>hooked\<close> says that \<open>subscribeNext\<close> is among its teardowns.
\<close>

record inner =
  src :: nat
  i_closed :: bool
  i_stopped :: bool
  hooked :: bool

text \<open>
  The state of one subscription to the operator's result. \<open>heap\<close> is the store of
  arrays (\<open>top\<close> the next free address), \<open>remaining\<close> the address of the array of line 86;
  \<open>sub_closed\<close>, \<open>sub_stopped\<close> and \<open>sub_teardowns\<close> are the fields \<open>closed\<close>, \<open>isStopped\<close>
  and the owned inner subscribers of the downstream \<open>subscriber\<close>; \<open>out\<close> is what its
  destination, the downstream sink, has received. The inner subscribers are listed
  newest first. Three fields only record history: \<open>shifted\<close> counts the calls of
  \<open>remaining.shift()\<close>, \<open>origin\<close> gives for every value in \<open>out\<close> the position of the
  entry it came from, \<open>peak_alive\<close> is the largest number of inner subscribers that
  were open at the same time.
\<close>

record ('a, 'e) state =
  heap :: "nat \<Rightarrow> ('a, 'e) entry list"
  top :: nat
  remaining :: nat
  sub_closed :: bool
  sub_stopped :: bool
  sub_teardowns :: "nat list"
  inners :: "inner list"
  out :: "('a, 'e) notif list"
  shifted :: nat
  origin :: "nat list"
  peak_alive :: nat

text \<open>The array \<open>remaining\<close> as it stands.\<close>

definition queue :: "('a, 'e) state \<Rightarrow> ('a, 'e) entry list" where
  "queue s = heap s (remaining s)"

text \<open>The inner subscriber created for the entry at position \<open>k\<close>, whether it is still
  open, and how many inner subscribers are open.\<close>

definition inner_of :: "('a, 'e) state \<Rightarrow> nat \<Rightarrow> inner option" where
  "inner_of s k = find (\<lambda>x. src x = k) (inners s)"

definition alive :: "('a, 'e) state \<Rightarrow> nat \<Rightarrow> bool" where
  "alive s k = (case inner_of s k of None \<Rightarrow> False | Some x \<Rightarrow> \<not> i_closed x)"

definition n_alive :: "('a, 'e) state \<Rightarrow> nat" where
  "n_alive s = length (filter (\<lambda>x. \<not> i_closed x) (inners s))"

text \<open>An update of the fields of the inner subscriber of entry \<open>k\<close>.\<close>

definition upd_inner :: "nat \<Rightarrow> (inner \<Rightarrow> inner) \<Rightarrow> ('a, 'e) state \<Rightarrow> ('a, 'e) state" where
  "upd_inner k f s = s\<lparr>inners := map (\<lambda>x. if src x = k then f x else x) (inners s)\<rparr>"

text \<open>Modelled from the spec: \<open>Subscriber.next\<close> of the downstream subscriber (class
  \<open>Subscriber\<close>, not among the sources). The value reaches the sink unless the
  subscriber is stopped, that is, has had its terminal notification or was unsubscribed.\<close>

definition sub_next :: "nat \<Rightarrow> 'a \<Rightarrow> ('a, 'e) state \<Rightarrow> ('a, 'e) state" where
  "sub_next k v s =
     (if sub_stopped s then s
      else s\<lparr>out := out s @ [Next v], origin := origin s @ [k]\<rparr>)"

text \<open>Modelled from the spec: \<open>innerSub.next(v)\<close> (class \<open>OperatorSubscriber\<close>, not
  among the sources), the forwarding sink of the spec's advancement algorithm (step 3).
  No handler was given (\<open>undefined\<close>), so the value goes to \<open>subscriber.next\<close>.\<close>

definition inner_next :: "nat \<Rightarrow> 'a \<Rightarrow> ('a, 'e) state \<Rightarrow> ('a, 'e) state" where
  "inner_next k v s =
     (case inner_of s k of
        None \<Rightarrow> s
      | Some x \<Rightarrow> if i_stopped x then s else sub_next k v s)"

text \<open>Modelled from the spec: the bookkeeping of \<open>innerSub.unsubscribe()\<close> (class
  \<open>Subscription\<close>, not among the sources). The flags are set, the subscriber leaves its
  parent's list and its own teardown list is emptied.\<close>

definition close_inner :: "nat \<Rightarrow> ('a, 'e) state \<Rightarrow> ('a, 'e) state" where
  "close_inner k s =
     upd_inner k (\<lambda>x. x\<lparr>i_closed := True, i_stopped := True, hooked := False\<rparr>)
       (s\<lparr>sub_teardowns := removeAll k (sub_teardowns s)\<rparr>)"

text \<open>Modelled from the spec: \<open>innerSub.unsubscribe()\<close> (class \<open>Subscription\<close>, not
  among the sources), idempotent; a registered teardown runs exactly once, when the
  subscription finalizes. \<open>td\<close> is what running the registered teardown \<open>subscribeNext\<close>
  does.\<close>

definition inner_unsubscribe ::
  "(('a, 'e) state \<Rightarrow> ('a, 'e) state) \<Rightarrow> nat \<Rightarrow> ('a, 'e) state \<Rightarrow> ('a, 'e) state" where
  "inner_unsubscribe td k s =
     (case inner_of s k of
        None \<Rightarrow> s
      | Some x \<Rightarrow>
          if i_closed x then s
          else if hooked x then td (close_inner k s)
          else close_inner k s)"

text \<open>Modelled from the spec: \<open>innerSub.error(e)\<close> and \<open>innerSub.complete()\<close> (class
  \<open>OperatorSubscriber\<close>, not among the sources). Both handlers are \<open>noop\<close>, so the two do
  the same, as in step 3 of the spec's advancement algorithm: the subscriber stops and
  unsubscribes itself. Nothing is passed to \<open>subscriber\<close>.\<close>

definition inner_terminal ::
  "(('a, 'e) state \<Rightarrow> ('a, 'e) state) \<Rightarrow> nat \<Rightarrow> ('a, 'e) state \<Rightarrow> ('a, 'e) state" where
  "inner_terminal td k s =
     (case inner_of s k of
        None \<Rightarrow> s
      | Some x \<Rightarrow>
          if i_stopped x then s
          else inner_unsubscribe td k (upd_inner k (\<lambda>x. x\<lparr>i_stopped := True\<rparr>) s))"

fun inner_notify ::
  "(('a, 'e) state \<Rightarrow> ('a, 'e) state) \<Rightarrow> nat \<Rightarrow> ('a, 'e) notif \<Rightarrow> ('a, 'e) state \<Rightarrow> ('a, 'e) state" where
  "inner_notify td k (Next v) s = inner_next k v s"
| "inner_notify td k (Error e) s = inner_terminal td k s"
| "inner_notify td k Complete s = inner_terminal td k s"

text \<open>Modelled from the spec: \<open>subscriber.unsubscribe()\<close> (class \<open>Subscription\<close>, not
  among the sources), idempotent and cancelling everything the subscriber owns.
  \<open>closed\<close> is set first, then every owned inner subscriber is unsubscribed.\<close>

definition unsubscribe ::
  "(('a, 'e) state \<Rightarrow> ('a, 'e) state) \<Rightarrow> ('a, 'e) state \<Rightarrow> ('a, 'e) state" where
  "unsubscribe td s =
     (if sub_closed s then s
      else foldl (\<lambda>t k. inner_unsubscribe td k t)
             (s\<lparr>sub_stopped := True, sub_closed := True, sub_teardowns := []\<rparr>)
             (sub_teardowns s))"

text \<open>Modelled from the spec: \<open>subscriber.complete()\<close> (class \<open>Subscriber\<close>, not among
  the sources). The sink receives \<open>complete\<close>, unless the subscriber is stopped, then
  the subscriber unsubscribes.\<close>

definition sub_complete ::
  "(('a, 'e) state \<Rightarrow> ('a, 'e) state) \<Rightarrow> ('a, 'e) state \<Rightarrow> ('a, 'e) state" where
  "sub_complete td s =
     (if sub_stopped s then s
      else unsubscribe td (s\<lparr>sub_stopped := True, out := out s @ [Complete]\<rparr>))"

text \<open>Modelled from the spec: \<open>subscriber.add(innerSub)\<close> (class \<open>Subscription\<close>, not
  among the sources). A closed subscriber unsubscribes what it is given; an open one
  takes it unless it is closed or already owned.\<close>

definition sub_add ::
  "(('a, 'e) state \<Rightarrow> ('a, 'e) state) \<Rightarrow> nat \<Rightarrow> ('a, 'e) state \<Rightarrow> ('a, 'e) state" where
  "sub_add td k s =
     (if sub_closed s then inner_unsubscribe td k s
      else if alive s k \<and> k \<notin> set (sub_teardowns s)
           then s\<lparr>sub_teardowns := sub_teardowns s @ [k]\<rparr>
           else s)"

text \<open>Modelled from the spec: the constructor of \<open>OperatorSubscriber\<close> (not among the
  sources), called at line 102 as \<open>new OperatorSubscriber(subscriber, undefined, noop,
  noop)\<close> for the entry at position \<open>k\<close>. It hands the new subscriber, which has no
  teardown yet, to \<open>subscriber\<close>, so that unsubscribing \<open>subscriber\<close> closes it at once
  (the comment at lines 98-101).\<close>

definition new_inner :: "nat \<Rightarrow> ('a, 'e) state \<Rightarrow> ('a, 'e) state" where
  "new_inner k s =
     (let s1 = s\<lparr>inners := \<lparr>src = k, i_closed = False, i_stopped = False, hooked = False\<rparr> # inners s\<rparr>
      in sub_add (\<lambda>t. t) k (s1\<lparr>peak_alive := max (peak_alive s1) (n_alive s1)\<rparr>))"

text \<open>
  One action of a producer during \<open>nextSource.subscribe(innerSub)\<close>. At that moment
  \<open>subscribeNext\<close> is not yet a teardown of \<open>innerSub\<close> (line 104 comes later), and a
  teardown run by \<open>subscriber.unsubscribe()\<close> finds \<open>subscriber.closed\<close> set, where
  \<open>subscribeNext\<close> returns at line 88: so the teardown is passed as the identity here.
  Lemmas \<open>unsubscribe_subscribeNext\<close> and \<open>sync_subscribeNext\<close> below show that passing
  \<open>subscribeNext\<close> itself gives the same.
\<close>

fun sync_act :: "nat \<Rightarrow> ('a, 'e) state \<Rightarrow> ('a, 'e) sact \<Rightarrow> ('a, 'e) state" where
  "sync_act k s (Notify n) = inner_notify (\<lambda>t. t) k n s"
| "sync_act k s Cancel = unsubscribe (\<lambda>t. t) s"

definition subscribe_source :: "nat \<Rightarrow> ('a, 'e) sact list \<Rightarrow> ('a, 'e) state \<Rightarrow> ('a, 'e) state" where
  "subscribe_source k acts s = foldl (sync_act k) s acts"

text \<open>\<open>remaining.shift()\<close> on a non-empty array.\<close>

definition shift :: "('a, 'e) state \<Rightarrow> ('a, 'e) state" where
  "shift s = s\<lparr>heap := (heap s)(remaining s := tl (queue s)), shifted := Suc (shifted s)\<rparr>"

text \<open>Lines 102 and 103: the inner subscriber is created, the source is subscribed
  with it, and the result, \<open>innerSub\<close> itself, is added to \<open>subscriber\<close>.\<close>

definition attach :: "nat \<Rightarrow> ('a, 'e) sact list \<Rightarrow> ('a, 'e) state \<Rightarrow> ('a, 'e) state" where
  "attach k acts s = sub_add (\<lambda>t. t) k (subscribe_source k acts (new_inner k s))"

subsection \<open>The array store is only touched by \<open>shift\<close>\<close>

definition same_arrays :: "('a, 'e) state \<Rightarrow> ('a, 'e) state \<Rightarrow> bool" where
  "same_arrays s t \<longleftrightarrow>
     heap t = heap s \<and> top t = top s \<and> remaining t = remaining s \<and> shifted t = shifted s"

lemma same_arrays_refl [simp]: "same_arrays s s"
  by (simp add: same_arrays_def)

lemma same_arrays_trans: "same_arrays s t \<Longrightarrow> same_arrays t u \<Longrightarrow> same_arrays s u"
  by (simp add: same_arrays_def)

lemma same_arrays_upd_inner [simp]: "same_arrays s (upd_inner k f s)"
  by (simp add: same_arrays_def upd_inner_def)

lemma same_arrays_inner_next [simp]: "same_arrays s (inner_next k v s)"
  by (simp add: same_arrays_def inner_next_def sub_next_def split: option.split)

lemma same_arrays_close_inner [simp]: "same_arrays s (close_inner k s)"
  by (simp add: same_arrays_def close_inner_def upd_inner_def)

lemma same_arrays_inner_unsubscribe:
  assumes "\<And>t. same_arrays t (td t)"
  shows "same_arrays s (inner_unsubscribe td k s)"
  using assms same_arrays_trans [OF same_arrays_close_inner assms]
  by (simp add: inner_unsubscribe_def split: option.split)

lemma same_arrays_inner_terminal:
  assumes "\<And>t. same_arrays t (td t)"
  shows "same_arrays s (inner_terminal td k s)"
  using same_arrays_trans [OF same_arrays_upd_inner same_arrays_inner_unsubscribe [OF assms]]
  by (simp add: inner_terminal_def split: option.split)

lemma same_arrays_inner_notify:
  assumes "\<And>t. same_arrays t (td t)"
  shows "same_arrays s (inner_notify td k n s)"
  by (cases n) (simp_all add: same_arrays_inner_terminal [OF assms])

lemma same_arrays_foldl_unsub:
  assumes "\<And>t. same_arrays t (td t)"
  shows "same_arrays s (foldl (\<lambda>t k. inner_unsubscribe td k t) s ks)"
proof (induction ks arbitrary: s)
  case Nil
  show ?case by simp
next
  case (Cons k ks)
  show ?case
    using same_arrays_trans [OF same_arrays_inner_unsubscribe [OF assms] Cons.IH]
    by simp
qed

lemma same_arrays_unsubscribe:
  assumes "\<And>t. same_arrays t (td t)"
  shows "same_arrays s (unsubscribe td s)"
proof -
  have "same_arrays s (s\<lparr>sub_stopped := True, sub_closed := True, sub_teardowns := []\<rparr>)"
    by (simp add: same_arrays_def)
  from same_arrays_trans [OF this same_arrays_foldl_unsub [OF assms]]
  show ?thesis by (simp add: unsubscribe_def)
qed

lemma same_arrays_sub_complete:
  assumes "\<And>t. same_arrays t (td t)"
  shows "same_arrays s (sub_complete td s)"
proof -
  have "same_arrays s (s\<lparr>sub_stopped := True, out := out s @ [Complete]\<rparr>)"
    by (simp add: same_arrays_def)
  from same_arrays_trans [OF this same_arrays_unsubscribe [OF assms]]
  show ?thesis by (simp add: sub_complete_def)
qed

lemma same_arrays_sub_add:
  assumes "\<And>t. same_arrays t (td t)"
  shows "same_arrays s (sub_add td k s)"
  using same_arrays_inner_unsubscribe [OF assms]
  by (simp add: sub_add_def) (simp add: same_arrays_def)

lemma same_arrays_new_inner [simp]: "same_arrays s (new_inner k s)"
proof -
  let ?s1 = "s\<lparr>inners := \<lparr>src = k, i_closed = False, i_stopped = False, hooked = False\<rparr> # inners s\<rparr>"
  have "same_arrays s (?s1\<lparr>peak_alive := max (peak_alive ?s1) (n_alive ?s1)\<rparr>)"
    by (simp add: same_arrays_def)
  from same_arrays_trans [OF this same_arrays_sub_add [of "\<lambda>t. t"]]
  show ?thesis by (simp add: new_inner_def Let_def)
qed

lemma same_arrays_sync_act [simp]: "same_arrays s (sync_act k s a)"
  by (cases a) (simp_all add: same_arrays_inner_notify same_arrays_unsubscribe)

lemma same_arrays_subscribe_source [simp]: "same_arrays s (subscribe_source k acts s)"
  unfolding subscribe_source_def
proof (induction acts arbitrary: s)
  case Nil
  show ?case by simp
next
  case (Cons a acts)
  show ?case
    using same_arrays_trans [OF same_arrays_sync_act Cons.IH] by simp
qed

lemma same_arrays_attach [simp]: "same_arrays s (attach k acts s)"
  unfolding attach_def
  by (rule same_arrays_trans [OF same_arrays_new_inner
        same_arrays_trans [OF same_arrays_subscribe_source same_arrays_sub_add]]) simp

lemma queue_same_arrays: "same_arrays s t \<Longrightarrow> queue t = queue s"
  by (simp add: same_arrays_def queue_def)

lemma queue_shift [simp]: "queue (shift s) = tl (queue s)"
  by (simp add: shift_def queue_def)

lemma queue_attach [simp]: "queue (attach k acts s) = queue s"
  by (rule queue_same_arrays) simp

text \<open>
  \<open>subscribeNext\<close> calls itself (line 94) and is called back by \<open>innerSub.add\<close> (line
  104) before it returns, so its activations nest, and the call stack bounds how many
  can. A call of \<open>subscribeNext\<close> that the stack has no room for does not run: the engine
  raises a \<open>RangeError\<close> at the call. The value records the state of the objects at
  that moment. The stack is measured in activations of \<open>subscribeNext\<close>: room for an
  activation includes room for the calls it makes other than a nested \<open>subscribeNext\<close>
  (\<open>shift\<close>, \<open>innerFrom\<close>, \<open>subscribe\<close>, \<open>add\<close>, \<open>complete\<close>).
\<close>

datatype ('a, 'e) failure = RangeError (left_behind: "('a, 'e) state")

text \<open>
  Lines 87-109, called on a stack that has room for this activation of \<open>subscribeNext\<close>
  and for \<open>d\<close> more nested in it. \<open>innerFrom\<close> throws on an \<open>Invalid\<close> entry and the
  catch block calls \<open>subscribeNext\<close> again (line 94), inside the running activation.
  Otherwise lines 102-103 run (\<open>attach\<close>) and line 104 adds \<open>subscribeNext\<close> to
  \<open>innerSub\<close>: a closed \<open>innerSub\<close> runs it at once, again inside the running
  activation, an open one keeps it as a teardown. With an empty array the subscriber
  completes (line 106); its owned inner subscribers are unsubscribed while
  \<open>subscriber.closed\<close> is set, so their teardown is passed as the identity, as in
  \<open>sync_act\<close>. Neither nested call is guarded by a handler of this file (the \<open>try\<close> of
  line 91 covers line 92 only), so a \<open>RangeError\<close> leaves every activation on its way
  (\<open>Inl\<close>).
\<close>

fun subscribeNext_within ::
  "nat \<Rightarrow> ('a, 'e) state \<Rightarrow> ('a, 'e) failure + ('a, 'e) state" where
  "subscribeNext_within d s =
     (if sub_closed s then Inr s
      else case queue s of
        [] \<Rightarrow> Inr (sub_complete (\<lambda>t. t) s)
      | Invalid # _ \<Rightarrow>
          (case d of
             0 \<Rightarrow> Inl (RangeError (shift s))
           | Suc d' \<Rightarrow> subscribeNext_within d' (shift s))
      | Src acts # _ \<Rightarrow>
          (let k = shifted s; s' = attach k acts (shift s)
           in if alive s' k then Inr (upd_inner k (\<lambda>x. x\<lparr>hooked := True\<rparr>) s')
              else (case d of
                      0 \<Rightarrow> Inl (RangeError s')
                    | Suc d' \<Rightarrow> subscribeNext_within d' s')))"

text \<open>
  \<open>subscribeNext\<close> on a stack that is deep enough for the call. Every nested activation
  has shifted an entry out of the array, so room for as many nested activations as the
  array has entries is enough and the case \<open>Inl\<close> does not arise (lemma
  \<open>subscribeNext_within_enough\<close>); lemma \<open>subscribeNext_within_depth\<close> gives the result
  on a stack of any depth. \<open>step\<close>, \<open>run\<close>, \<open>subscribe\<close> and \<open>onErrorResumeNext\<close> below are
  built on it and so describe the operator where the stack is deep enough;
  \<open>session_within\<close> is the operator on a stack of a given depth.
\<close>

definition subscribeNext :: "('a, 'e) state \<Rightarrow> ('a, 'e) state" where
  "subscribeNext s =
     (case subscribeNext_within (length (queue s)) s of
        Inr s' \<Rightarrow> s'
      | Inl f \<Rightarrow> left_behind f)"

text \<open>
  The number of activations of \<open>subscribeNext\<close> on the call stack at the deepest point
  of one call on a stack that is deep enough: the call of line 94 is made inside the
  catch block, and the call made by \<open>innerSub.add(subscribeNext)\<close> on a closed
  \<open>innerSub\<close> (line 104) is made inside \<open>add\<close>, so each runs inside its caller's
  activation.
\<close>

function subscribeNext_depth :: "('a, 'e) state \<Rightarrow> nat" where
  "subscribeNext_depth s =
     (if sub_closed s then 1
      else case queue s of
        [] \<Rightarrow> 1
      | Invalid # _ \<Rightarrow> Suc (subscribeNext_depth (shift s))
      | Src acts # _ \<Rightarrow>
          (let k = shifted s; s' = attach k acts (shift s)
           in if alive s' k then 1 else Suc (subscribeNext_depth s')))"
  by pat_completeness auto
termination
  by (relation "measure (\<lambda>s. length (queue s))") simp_all

subsection \<open>Events after the subscribe call\<close>

text \<open>A notification pushed into the inner subscriber of entry \<open>k\<close> runs that
  subscriber's teardown \<open>subscribeNext\<close> when it is terminal; \<open>Unsubscribe\<close> is the
  consumer's \<open>subscriber.unsubscribe()\<close>.\<close>

fun step :: "('a, 'e) state \<Rightarrow> ('a, 'e) event \<Rightarrow> ('a, 'e) state" where
  "step s (Emit k n) = inner_notify subscribeNext k n s"
| "step s Unsubscribe = unsubscribe subscribeNext s"

definition run :: "('a, 'e) state \<Rightarrow> ('a, 'e) event list \<Rightarrow> ('a, 'e) state" where
  "run s evs = foldl step s evs"

text \<open>
  Lines 85-111, one subscription: \<open>h\<close> is the array store with next free address \<open>t\<close>,
  \<open>ns\<close> the address of the operator's array \<open>nextSources\<close> and \<open>source\<close> the primary
  observable. Line 86 allocates the new array \<open>[source, ...nextSources]\<close>; line 111
  calls \<open>subscribeNext\<close>.
\<close>

definition start ::
  "(nat \<Rightarrow> ('a, 'e) entry list) \<Rightarrow> nat \<Rightarrow> nat \<Rightarrow> ('a, 'e) sact list \<Rightarrow> ('a, 'e) state" where
  "start h t ns source =
     \<lparr>heap = h(t := Src source # h ns), top = Suc t, remaining = t,
      sub_closed = False, sub_stopped = False, sub_teardowns = [], inners = [],
      out = [], shifted = 0, origin = [], peak_alive = 0\<rparr>"

definition subscribe ::
  "(nat \<Rightarrow> ('a, 'e) entry list) \<Rightarrow> nat \<Rightarrow> nat \<Rightarrow> ('a, 'e) sact list \<Rightarrow> ('a, 'e) state" where
  "subscribe h t ns source = subscribeNext (start h t ns source)"

text \<open>
  \<open>onErrorResumeNext(...nextSources)\<close> applied to \<open>source\<close> and subscribed, in a store
  that holds the caller's array at address 0. Modelled from the spec:
  \<open>argsOrArgArray\<close> and \<open>operate\<close> are not among the sources; argument normalization
  yields the canonical sequence of the fallbacks, here the array it is given, and
  \<open>operate\<close> hands the primary source and the downstream subscriber to the function of
  lines 85-112 at each subscription.
\<close>

definition onErrorResumeNext ::
  "('a, 'e) entry list \<Rightarrow> ('a, 'e) sact list \<Rightarrow> ('a, 'e) state" where
  "onErrorResumeNext nextSources source = subscribe ((\<lambda>_. [])(0 := nextSources)) 1 0 source"

subsection \<open>Runs on a call stack of a given depth\<close>

text \<open>
  The state in which a terminal notification pushed into the inner subscriber of entry
  \<open>k\<close> runs the teardown \<open>subscribeNext\<close>, if it runs it: the subscriber is neither
  stopped nor closed and \<open>subscribeNext\<close> has been registered (line 104). Lemma
  \<open>inner_terminal_call\<close> shows that \<open>inner_terminal\<close> runs its teardown in this state and
  in no other.
\<close>

definition teardown_call :: "('a, 'e) state \<Rightarrow> nat \<Rightarrow> ('a, 'e) state option" where
  "teardown_call s k =
     (case inner_of s k of
        None \<Rightarrow> None
      | Some x \<Rightarrow>
          if i_stopped x \<or> i_closed x \<or> \<not> hooked x then None
          else Some (close_inner k (upd_inner k (\<lambda>x. x\<lparr>i_stopped := True\<rparr>) s)))"

text \<open>\<open>innerSub.error(e)\<close> or \<open>innerSub.complete()\<close> on a stack with room for the
  activation of \<open>subscribeNext\<close> it may start and for \<open>d\<close> more nested in that one.\<close>

definition terminal_within ::
  "nat \<Rightarrow> nat \<Rightarrow> ('a, 'e) state \<Rightarrow> ('a, 'e) failure + ('a, 'e) state" where
  "terminal_within d k s =
     (case teardown_call s k of
        None \<Rightarrow> Inr (inner_terminal (\<lambda>t. t) k s)
      | Some p \<Rightarrow> subscribeNext_within d p)"

text \<open>An event on such a stack. The teardowns run by \<open>subscriber.unsubscribe()\<close> find
  \<open>subscriber.closed\<close> set and return at line 88, each within a single activation.\<close>

fun step_within ::
  "nat \<Rightarrow> ('a, 'e) state \<Rightarrow> ('a, 'e) event \<Rightarrow> ('a, 'e) failure + ('a, 'e) state" where
  "step_within d s (Emit k (Next v)) = Inr (inner_next k v s)"
| "step_within d s (Emit k (Error e)) = terminal_within d k s"
| "step_within d s (Emit k Complete) = terminal_within d k s"
| "step_within d s Unsubscribe = Inr (unsubscribe (\<lambda>t. t) s)"

text \<open>The events one after the other, up to the first call the stack has no room for.\<close>

fun run_within ::
  "nat \<Rightarrow> ('a, 'e) state \<Rightarrow> ('a, 'e) event list \<Rightarrow> ('a, 'e) failure + ('a, 'e) state" where
  "run_within d s [] = Inr s"
| "run_within d s (ev # evs) =
     (case step_within d s ev of
        Inl f \<Rightarrow> Inl f
      | Inr s' \<Rightarrow> run_within d s' evs)"

text \<open>One subscription, the call of line 111 and the events after it, on a stack that
  has room for \<open>d\<close> nested activations of \<open>subscribeNext\<close> whenever \<open>subscribeNext\<close> is
  called from outside.\<close>

definition session_within ::
  "nat \<Rightarrow> (nat \<Rightarrow> ('a, 'e) entry list) \<Rightarrow> nat \<Rightarrow> nat \<Rightarrow> ('a, 'e) sact list \<Rightarrow>
   ('a, 'e) event list \<Rightarrow> ('a, 'e) failure + ('a, 'e) state" where
  "session_within d h t ns source evs =
     (case subscribeNext_within d (start h t ns source) of
        Inl f \<Rightarrow> Inl f
      | Inr s \<Rightarrow> run_within d s evs)"

text \<open>The operator applied to \<open>source\<close> and subscribed, as in \<open>onErrorResumeNext\<close>,
  and the events after it, on such a stack.\<close>

definition onErrorResumeNext_within ::
  "nat \<Rightarrow> ('a, 'e) entry list \<Rightarrow> ('a, 'e) sact list \<Rightarrow> ('a, 'e) event list \<Rightarrow>
   ('a, 'e) failure + ('a, 'e) state" where
  "onErrorResumeNext_within d nextSources source evs =
     session_within d ((\<lambda>_. [])(0 := nextSources)) 1 0 source evs"

subsection \<open>Invariants\<close>

text \<open>An inner subscriber that has finalized: closed, stopped, and with no teardown left.\<close>

definition settled :: "inner \<Rightarrow> bool" where
  "settled x \<longleftrightarrow> i_closed x \<and> i_stopped x \<and> \<not> hooked x"

text \<open>No inner subscriber is open.\<close>

definition idle :: "('a, 'e) state \<Rightarrow> bool" where
  "idle s \<longleftrightarrow> list_all i_closed (inners s)"

text \<open>
  The shape of the states the operator reaches. Only the newest inner subscriber can
  be open; every older one has finalized and was created for an earlier entry. The
  downstream subscriber owns exactly the open inner subscriber, and every value in
  \<open>out\<close> came from the newest entry or an earlier one. \<open>h\<close> says whether an open inner
  subscriber has \<open>subscribeNext\<close> among its teardowns: it has between two events, and
  has not while its source is being subscribed.
\<close>

definition wf :: "bool \<Rightarrow> ('a, 'e) state \<Rightarrow> bool" where
  "wf h s \<longleftrightarrow>
     sub_stopped s = sub_closed s \<and> peak_alive s \<le> 1 \<and> sorted (origin s) \<and>
     (case inners s of
        [] \<Rightarrow> sub_teardowns s = [] \<and> origin s = []
      | x # xs \<Rightarrow>
          list_all (\<lambda>y. settled y \<and> src y < src x) xs \<and> src x < shifted s \<and>
          i_stopped x = i_closed x \<and> hooked x = (h \<and> \<not> i_closed x) \<and>
          (sub_closed s \<longrightarrow> i_closed x) \<and>
          sub_teardowns s = (if i_closed x then [] else [src x]) \<and>
          list_all (\<lambda>n. n \<le> src x) (origin s))"

text \<open>What unsubscribing the newest inner subscriber leaves behind (used to state
  the effect of the operations on well-shaped states).\<close>

definition fin :: "('a, 'e) state \<Rightarrow> ('a, 'e) state" where
  "fin s = s\<lparr>inners := (case inners s of [] \<Rightarrow> []
        | x # xs \<Rightarrow> x\<lparr>i_closed := True, i_stopped := True, hooked := False\<rparr> # xs),
      sub_teardowns := []\<rparr>"

text \<open>The newest inner subscriber belongs to entry \<open>k\<close>.\<close>

definition newest :: "nat \<Rightarrow> ('a, 'e) state \<Rightarrow> bool" where
  "newest k s \<longleftrightarrow> (case inners s of [] \<Rightarrow> False | x # xs \<Rightarrow> src x = k)"

text \<open>An entry during whose subscribe call the consumer does not unsubscribe.\<close>

definition cancel_free :: "('a, 'e) entry \<Rightarrow> bool" where
  "cancel_free e = (case e of Invalid \<Rightarrow> True | Src acts \<Rightarrow> Cancel \<notin> set acts)"

text \<open>
  The single changes of state a run is made of, as a relation between the state a run
  starts in and the states it passes through: a value is forwarded, the open inner
  subscriber finalizes, the consumer cancels (only when \<open>c\<close> allows it), the subscriber
  completes on an empty array, an entry is shifted out and skipped or subscribed, and
  \<open>subscribeNext\<close> is registered as a teardown. Lemma \<open>moves_reach\<close> shows that every run
  of the operator is a sequence of these.
\<close>

inductive moves :: "bool \<Rightarrow> ('a, 'e) state \<Rightarrow> ('a, 'e) state \<Rightarrow> bool" for c s where
  start: "moves c s s"
| forward: "moves c s t \<Longrightarrow> alive t k \<Longrightarrow> \<not> sub_stopped t \<Longrightarrow>
     moves c s (t\<lparr>out := out t @ [Next v], origin := origin t @ [k]\<rparr>)"
| finalize: "moves c s t \<Longrightarrow> \<not> idle t \<Longrightarrow> moves c s (fin t)"
| cancel: "moves c s t \<Longrightarrow> c \<Longrightarrow> \<not> sub_closed t \<Longrightarrow>
     moves c s (fin (t\<lparr>sub_stopped := True, sub_closed := True\<rparr>))"
| complete: "moves c s t \<Longrightarrow> idle t \<Longrightarrow> \<not> sub_closed t \<Longrightarrow> queue t = [] \<Longrightarrow>
     moves c s (t\<lparr>sub_stopped := True, out := out t @ [Complete], sub_closed := True,
               sub_teardowns := []\<rparr>)"
| skip: "moves c s t \<Longrightarrow> idle t \<Longrightarrow> \<not> sub_closed t \<Longrightarrow> queue t = Invalid # es \<Longrightarrow>
     moves c s (shift t)"
| create: "moves c s t \<Longrightarrow> idle t \<Longrightarrow> \<not> sub_closed t \<Longrightarrow> queue t = Src acts # es \<Longrightarrow>
     moves c s (new_inner (shifted t) (shift t))"
| hook: "moves c s t \<Longrightarrow> alive t k \<Longrightarrow> moves c s (upd_inner k (\<lambda>x. x\<lparr>hooked := True\<rparr>) t)"

text \<open>A notification that carries a value.\<close>

fun is_next :: "('a, 'e) notif \<Rightarrow> bool" where
  "is_next (Next v) = True"
| "is_next (Error e) = False"
| "is_next Complete = False"

text \<open>What the sink may have received: values only, or values followed by one
  \<open>complete\<close>, and the latter only when the subscriber is closed, the array is empty and
  no inner subscriber is open.\<close>

definition out_ok :: "('a, 'e) state \<Rightarrow> bool" where
  "out_ok s \<longleftrightarrow>
     list_all is_next (out s) \<or>
     (out s \<noteq> [] \<and> last (out s) = Complete \<and> list_all is_next (butlast (out s)) \<and>
      sub_closed s \<and> sub_stopped s \<and> queue s = [] \<and> idle s)"

text \<open>How far the array \<open>init = [source, ...nextSources]\<close> has been consumed: the array
  now holds what is left after \<open>shifted s\<close> entries, and the inner subscribers, oldest
  first, belong to exactly the convertible entries among those, in their order.\<close>

definition consumed :: "('a, 'e) entry list \<Rightarrow> ('a, 'e) state \<Rightarrow> bool" where
  "consumed init s \<longleftrightarrow>
     shifted s \<le> length init \<and> queue s = drop (shifted s) init \<and>
     rev (map src (inners s)) = filter (\<lambda>i. init ! i \<noteq> Invalid) [0..<shifted s]"

text \<open>An open inner subscriber is the newest one and belongs to the entry that was
  shifted out last; every older one is closed.\<close>

definition front_open :: "('a, 'e) state \<Rightarrow> bool" where
  "front_open s \<longleftrightarrow>
     (case inners s of
        [] \<Rightarrow> True
      | x # xs \<Rightarrow> list_all i_closed xs \<and> (\<not> i_closed x \<longrightarrow> src x = shifted s - 1))"

text \<open>The values a producer pushes during the subscribe call before its first
  terminal notification or cancellation.\<close>

fun emitted :: "('a, 'e) sact list \<Rightarrow> 'a list" where
  "emitted [] = []"
| "emitted (Notify (Next v) # acts) = v # emitted acts"
| "emitted (Notify (Error e) # acts) = []"
| "emitted (Notify Complete # acts) = []"
| "emitted (Cancel # acts) = []"

text \<open>The producer terminates (\<open>error\<close> or \<open>complete\<close>) during the subscribe call.\<close>

fun ends :: "('a, 'e) sact list \<Rightarrow> bool" where
  "ends [] = False"
| "ends (Notify (Next v) # acts) = ends acts"
| "ends (Notify (Error e) # acts) = True"
| "ends (Notify Complete # acts) = True"
| "ends (Cancel # acts) = False"

text \<open>An entry that is finished when its subscribe call returns: \<open>innerFrom\<close> throws
  on it, or its observable terminates synchronously and the consumer does not cancel.\<close>

fun immediate :: "('a, 'e) entry \<Rightarrow> bool" where
  "immediate Invalid = True"
| "immediate (Src acts) = (ends acts \<and> Cancel \<notin> set acts)"

text \<open>The values such an entry delivers during its subscribe call.\<close>

fun entry_values :: "('a, 'e) entry \<Rightarrow> 'a list" where
  "entry_values Invalid = []"
| "entry_values (Src acts) = emitted acts"

text \<open>The open inner subscriber, if there is one.\<close>

definition live :: "('a, 'e) state \<Rightarrow> inner option" where
  "live s = (case inners s of [] \<Rightarrow> None | x # xs \<Rightarrow> if i_closed x then None else Some x)"

text \<open>An entry and the same entry, or an entry on which \<open>innerFrom\<close> throws and an
  observable that errors as soon as it is subscribed.\<close>

definition sub_entry :: "'e \<Rightarrow> ('a, 'e) entry \<Rightarrow> ('a, 'e) entry \<Rightarrow> bool" where
  "sub_entry e x y \<longleftrightarrow> x = y \<or> (x = Invalid \<and> y = Src [Notify (Error e)])"

text \<open>Two states a consumer cannot tell apart: the downstream subscriber, what the sink
  has received and the open inner subscriber are the same, and the arrays hold
  corresponding entries.\<close>

definition sim :: "'e \<Rightarrow> ('a, 'e) state \<Rightarrow> ('a, 'e) state \<Rightarrow> bool" where
  "sim e s t \<longleftrightarrow>
     sub_closed s = sub_closed t \<and> sub_stopped s = sub_stopped t \<and>
     sub_teardowns s = sub_teardowns t \<and> out s = out t \<and> origin s = origin t \<and>
     shifted s = shifted t \<and> live s = live t \<and>
     list_all2 (sub_entry e) (queue s) (queue t)"

section \<open>Properties\<close>

subsection \<open>The equations of \<open>subscribeNext\<close>, case by case\<close>

declare subscribeNext_within.simps [simp del] subscribeNext_depth.simps [simp del]

lemma subscribeNext_within_closed: "sub_closed s \<Longrightarrow> subscribeNext_within d s = Inr s"
  by (subst subscribeNext_within.simps) simp

lemma subscribeNext_within_empty:
  "\<not> sub_closed s \<Longrightarrow> queue s = [] \<Longrightarrow>
   subscribeNext_within d s = Inr (sub_complete (\<lambda>t. t) s)"
  by (subst subscribeNext_within.simps) simp

lemma subscribeNext_within_Invalid:
  "\<not> sub_closed s \<Longrightarrow> queue s = Invalid # xs \<Longrightarrow>
   subscribeNext_within d s =
     (case d of 0 \<Rightarrow> Inl (RangeError (shift s)) | Suc d' \<Rightarrow> subscribeNext_within d' (shift s))"
  by (subst subscribeNext_within.simps) simp

lemma subscribeNext_within_Src:
  "\<not> sub_closed s \<Longrightarrow> queue s = Src acts # xs \<Longrightarrow>
   subscribeNext_within d s =
     (if alive (attach (shifted s) acts (shift s)) (shifted s)
      then Inr (upd_inner (shifted s) (\<lambda>x. x\<lparr>hooked := True\<rparr>) (attach (shifted s) acts (shift s)))
      else (case d of
              0 \<Rightarrow> Inl (RangeError (attach (shifted s) acts (shift s)))
            | Suc d' \<Rightarrow> subscribeNext_within d' (attach (shifted s) acts (shift s))))"
  by (subst subscribeNext_within.simps) (simp add: Let_def)

lemma subscribeNext_closed: "sub_closed s \<Longrightarrow> subscribeNext s = s"
  by (simp add: subscribeNext_def subscribeNext_within_closed)

lemma subscribeNext_empty:
  "\<not> sub_closed s \<Longrightarrow> queue s = [] \<Longrightarrow> subscribeNext s = sub_complete (\<lambda>t. t) s"
  by (simp add: subscribeNext_def subscribeNext_within_empty)

lemma subscribeNext_Invalid:
  "\<not> sub_closed s \<Longrightarrow> queue s = Invalid # xs \<Longrightarrow> subscribeNext s = subscribeNext (shift s)"
  by (simp add: subscribeNext_def subscribeNext_within_Invalid)

lemma subscribeNext_Src:
  "\<not> sub_closed s \<Longrightarrow> queue s = Src acts # xs \<Longrightarrow>
   subscribeNext s =
     (if alive (attach (shifted s) acts (shift s)) (shifted s)
      then upd_inner (shifted s) (\<lambda>x. x\<lparr>hooked := True\<rparr>) (attach (shifted s) acts (shift s))
      else subscribeNext (attach (shifted s) acts (shift s)))"
  by (simp add: subscribeNext_def subscribeNext_within_Src)

text \<open>Induction along the nested calls of \<open>subscribeNext\<close>.\<close>

lemma subscribeNext_induct:
  assumes "\<And>s. (\<And>e es. \<not> sub_closed s \<Longrightarrow> queue s = e # es \<Longrightarrow> e = Invalid \<Longrightarrow> P (shift s)) \<Longrightarrow>
     (\<And>e es acts k s'. \<not> sub_closed s \<Longrightarrow> queue s = e # es \<Longrightarrow> e = Src acts \<Longrightarrow>
        k = shifted s \<Longrightarrow> s' = attach k acts (shift s) \<Longrightarrow> \<not> alive s' k \<Longrightarrow> P s') \<Longrightarrow> P s"
  shows "P s"
proof (induction "length (queue s)" arbitrary: s rule: less_induct)
  case less
  show ?case
  proof (rule assms)
    fix e es
    assume "queue s = e # es"
    then show "P (shift s)"
      by (intro less) simp
  next
    fix e es acts k s'
    assume "queue s = e # es" "s' = attach k acts (shift s)"
    then show "P s'"
      by (intro less) simp
  qed
qed

subsection \<open>The operations on well-shaped states\<close>

lemma find_list_all: "list_all P xs \<Longrightarrow> find Q xs = Some y \<Longrightarrow> P y \<and> Q y"
  by (induction xs) (auto split: if_splits)

lemma map_older:
  "list_all (\<lambda>y. P y \<and> src y < n) xs \<Longrightarrow> n \<le> k \<Longrightarrow> (\<And>x. src x \<noteq> k \<Longrightarrow> g x = x) \<Longrightarrow>
   map g xs = xs"
  by (induction xs) auto

lemma inner_of_wf:
  assumes "wf h s" "inner_of s k = Some y" "\<not> i_closed y \<or> \<not> i_stopped y"
  shows "\<exists>xs. inners s = y # xs \<and> src y = k \<and> \<not> i_closed y \<and> \<not> i_stopped y \<and> hooked y = h
     \<and> sub_teardowns s = [k] \<and> \<not> sub_closed s"
  using assms
  by (auto simp: wf_def inner_of_def settled_def split: list.splits if_splits dest: find_list_all)

lemma alive_wf:
  "wf h s \<Longrightarrow> alive s k \<longleftrightarrow> (\<exists>x xs. inners s = x # xs \<and> src x = k \<and> \<not> i_closed x)"
  by (auto simp: alive_def inner_of_def wf_def settled_def split: option.splits list.splits dest: find_list_all)

lemma close_stop_wf:
  assumes "wf h s" "inners s = x # xs" "src x = k"
  shows "close_inner k (upd_inner k (\<lambda>x. x\<lparr>i_stopped := True\<rparr>) s) = fin s"
    and "close_inner k s = fin s"
proof -
  have old: "list_all (\<lambda>y. settled y \<and> src y < src x) xs"
    using assms by (simp add: wf_def)
  have m: "map g xs = xs" if g: "\<And>x. src x \<noteq> k \<Longrightarrow> g x = x" for g
    by (rule map_older [OF old, of k]) (use assms(3) g in auto)
  have t: "removeAll k (sub_teardowns s) = []"
    using assms by (auto simp: wf_def)
  show "close_inner k (upd_inner k (\<lambda>x. x\<lparr>i_stopped := True\<rparr>) s) = fin s"
    using assms(2,3) t by (simp add: close_inner_def upd_inner_def fin_def m)
  show "close_inner k s = fin s"
    using assms(2,3) t by (simp add: close_inner_def upd_inner_def fin_def m)
qed

lemma wf_fin: "wf h s \<Longrightarrow> wf h' (fin s) \<and> idle (fin s)"
  by (auto simp: wf_def fin_def idle_def settled_def list_all_iff split: list.splits)

lemma inner_terminal_wf:
  assumes "wf h s"
  shows "inner_terminal td k s = (if alive s k then (if h then td (fin s) else fin s) else s)"
proof (cases "alive s k")
  case True
  then obtain x xs where x: "inners s = x # xs" "src x = k" "\<not> i_closed x"
    using assms by (auto simp: alive_wf)
  with assms have hx: "hooked x = h" "\<not> i_stopped x"
    by (auto simp: wf_def)
  let ?s1 = "upd_inner k (\<lambda>x. x\<lparr>i_stopped := True\<rparr>) s"
  have i1: "inner_of ?s1 k = Some (x\<lparr>i_stopped := True\<rparr>)" and i0: "inner_of s k = Some x"
    using x by (simp_all add: inner_of_def upd_inner_def)
  show ?thesis
    using True x hx i1 i0 close_stop_wf(1) [OF assms x(1,2)]
    by (simp add: inner_terminal_def inner_unsubscribe_def)
next
  case False
  then show ?thesis
    using inner_of_wf [OF assms, of k]
    by (auto simp: inner_terminal_def alive_def split: option.splits)
qed

lemma inner_unsubscribe_wf:
  assumes "wf h s"
  shows "inner_unsubscribe td k s = (if alive s k then (if h then td (fin s) else fin s) else s)"
proof (cases "alive s k")
  case True
  then obtain x xs where x: "inners s = x # xs" "src x = k" "\<not> i_closed x"
    using assms by (auto simp: alive_wf)
  with assms have hx: "hooked x = h"
    by (auto simp: wf_def)
  have i0: "inner_of s k = Some x"
    using x by (simp_all add: inner_of_def)
  show ?thesis
    using True x hx i0 close_stop_wf(2) [OF assms x(1,2)]
    by (simp add: inner_unsubscribe_def)
next
  case False
  then show ?thesis
    by (auto simp: inner_unsubscribe_def alive_def split: option.splits)
qed

lemma inner_next_wf:
  assumes "wf h s"
  shows "wf h (inner_next k v s)"
proof (cases "alive s k \<and> \<not> sub_stopped s")
  case True
  then obtain x xs where x: "inners s = x # xs" "src x = k" "\<not> i_closed x"
    using assms by (auto simp: alive_wf)
  have "inner_next k v s = s\<lparr>out := out s @ [Next v], origin := origin s @ [k]\<rparr>"
    using True x assms by (auto simp: inner_next_def inner_of_def sub_next_def wf_def)
  then show ?thesis
    using assms x by (auto simp: wf_def sorted_append list_all_iff)
next
  case False
  then have "inner_next k v s = s"
    using inner_of_wf [OF assms, of k]
    by (auto simp: inner_next_def sub_next_def alive_def split: option.splits)
  then show ?thesis using assms by simp
qed

lemma wf_idle: "wf h s \<Longrightarrow> idle s \<Longrightarrow> wf h' s"
  by (auto simp: wf_def idle_def split: list.splits)

lemma idle_not_alive: "idle s \<Longrightarrow> \<not> alive s k"
  by (auto simp: idle_def alive_def inner_of_def list_all_iff find_Some_iff split: option.splits)

lemma idle_closed: "wf h s \<Longrightarrow> sub_closed s \<Longrightarrow> idle s"
  by (auto simp: wf_def idle_def settled_def list_all_iff split: list.splits)

lemma idle_teardowns: "wf h s \<Longrightarrow> idle s \<Longrightarrow> sub_teardowns s = []"
  by (auto simp: wf_def idle_def split: list.splits)

lemma idle_n_alive: "idle s \<Longrightarrow> n_alive s = 0"
  by (auto simp: idle_def n_alive_def list_all_iff)

lemma unsubscribe_wf:
  assumes "wf h s"
  shows "unsubscribe td s =
     (if sub_closed s then s
      else if h \<and> \<not> idle s then td (fin (s\<lparr>sub_stopped := True, sub_closed := True\<rparr>))
      else fin (s\<lparr>sub_stopped := True, sub_closed := True\<rparr>))"
proof (cases "sub_closed s")
  case True
  then show ?thesis by (simp add: unsubscribe_def)
next
  case opn: False
  let ?s1 = "s\<lparr>sub_stopped := True, sub_closed := True, sub_teardowns := []\<rparr>"
  let ?s2 = "s\<lparr>sub_stopped := True, sub_closed := True\<rparr>"
  have f: "fin ?s1 = fin ?s2"
    by (simp add: fin_def)
  show ?thesis
  proof (cases "inners s")
    case Nil
    then have "sub_teardowns s = []" "idle s"
      using assms by (auto simp: wf_def idle_def)
    moreover have "?s1 = fin ?s2"
      using Nil by (simp add: fin_def)
    ultimately show ?thesis
      using opn by (simp add: unsubscribe_def)
  next
    case (Cons x xs)
    show ?thesis
    proof (cases "i_closed x")
      case True
      then have i: "idle s" "sub_teardowns s = []" "i_stopped x" "\<not> hooked x"
        using assms Cons by (auto simp: wf_def idle_def settled_def list_all_iff)
      have "?s1 = fin ?s2"
        using Cons True i by (simp add: fin_def)
      then show ?thesis
        using opn i by (simp add: unsubscribe_def)
    next
      case False
      then have i: "\<not> idle s" "sub_teardowns s = [src x]" "hooked x = h"
        and old: "list_all (\<lambda>y. settled y \<and> src y < src x) xs"
        using assms Cons by (auto simp: wf_def idle_def)
      have m: "map g xs = xs" if g: "\<And>y. src y \<noteq> src x \<Longrightarrow> g y = y" for g
        by (rule map_older [OF old, of "src x"]) (use g in auto)
      have c: "close_inner (src x) ?s1 = fin ?s2"
        using Cons by (simp add: close_inner_def upd_inner_def fin_def m)
      have "inner_of ?s1 (src x) = Some x"
        using Cons by (simp add: inner_of_def)
      then show ?thesis
        using opn i False c by (simp add: unsubscribe_def inner_unsubscribe_def)
    qed
  qed
qed

lemma wf_cancel:
  assumes "wf h s"
  shows "wf h' (fin (s\<lparr>sub_stopped := True, sub_closed := True\<rparr>))"
    and "idle (fin (s\<lparr>sub_stopped := True, sub_closed := True\<rparr>))"
  using assms
  by (auto simp: wf_def fin_def idle_def settled_def list_all_iff split: list.splits)

lemma sub_complete_idle:
  assumes "wf h s" "idle s" "\<not> sub_closed s"
  shows "sub_complete td s =
     s\<lparr>sub_stopped := True, out := out s @ [Complete], sub_closed := True, sub_teardowns := []\<rparr>"
  using assms idle_teardowns [OF assms(1,2)]
  by (simp add: sub_complete_def unsubscribe_def wf_def)

lemma wf_completed:
  assumes "wf h s" "idle s"
  shows "wf h' (s\<lparr>sub_stopped := True, out := out s @ [Complete], sub_closed := True, sub_teardowns := []\<rparr>)"
  using assms by (auto simp: wf_def idle_def split: list.splits)

lemma wf_shift: "wf h s \<Longrightarrow> wf h (shift s)"
  by (auto simp: wf_def shift_def split: list.splits)

lemma idle_shift [simp]: "idle (shift s) = idle s"
  by (simp add: idle_def shift_def)

lemma new_inner_wf:
  assumes "wf h s" "idle s" "\<not> sub_closed s" "k = shifted s"
  shows "wf False (new_inner k (shift s))" and "newest k (new_inner k (shift s))"
proof -
  let ?x = "\<lparr>src = k, i_closed = False, i_stopped = False, hooked = False\<rparr>"
  let ?s1 = "shift s\<lparr>inners := ?x # inners s\<rparr>"
  let ?s2 = "?s1\<lparr>peak_alive := max (peak_alive s) (n_alive ?s1)\<rparr>"
  have a: "alive ?s2 k"
    by (simp add: alive_def inner_of_def)
  have t: "sub_teardowns ?s2 = []"
    using idle_teardowns [OF assms(1,2)] by (simp add: shift_def)
  have n: "n_alive ?s1 = 1"
    using idle_n_alive [OF assms(2)] by (simp add: n_alive_def)
  have e: "new_inner k (shift s) = ?s2\<lparr>sub_teardowns := [k]\<rparr>"
    using assms(3) a t by (simp add: new_inner_def Let_def sub_add_def shift_def)
  show "wf False (new_inner k (shift s))"
    unfolding e using assms n
    by (auto simp: wf_def idle_def shift_def settled_def list_all_iff split: list.splits)
  show "newest k (new_inner k (shift s))"
    unfolding e by (simp add: newest_def)
qed

lemma newest_fin [simp]: "newest k (fin s) = newest k s"
  by (simp add: newest_def fin_def split: list.splits)

lemma inners_inner_next [simp]: "inners (inner_next k v s) = inners s"
  by (simp add: inner_next_def sub_next_def split: option.splits)

lemma sync_act_wf:
  assumes "wf False s" "newest k s"
  shows "wf False (sync_act j s a) \<and> newest k (sync_act j s a)"
proof (cases a)
  case (Notify n)
  show ?thesis
  proof (cases n)
    case (Next v)
    then show ?thesis
      using Notify assms inner_next_wf [OF assms(1)] by (simp add: newest_def)
  next
    case (Error e)
    then show ?thesis
      using Notify assms wf_fin [OF assms(1)] by (simp add: inner_terminal_wf)
  next
    case Complete
    then show ?thesis
      using Notify assms wf_fin [OF assms(1)] by (simp add: inner_terminal_wf)
  qed
next
  case Cancel
  have "newest k (s\<lparr>sub_stopped := True, sub_closed := True\<rparr>)"
    using assms(2) by (simp add: newest_def)
  then show ?thesis
    using Cancel assms wf_cancel(1) [OF assms(1)] by (simp add: unsubscribe_wf)
qed

lemma subscribe_source_wf:
  "wf False s \<Longrightarrow> newest k s \<Longrightarrow>
   wf False (subscribe_source j acts s) \<and> newest k (subscribe_source j acts s)"
  unfolding subscribe_source_def
proof (induction acts arbitrary: s)
  case Nil
  then show ?case by simp
next
  case (Cons a acts)
  from sync_act_wf [OF Cons.prems, of j a] Cons.IH show ?case by simp
qed

lemma sub_add_wf:
  assumes "wf h s"
  shows "sub_add (\<lambda>t. t) k s = s"
proof (cases "sub_closed s")
  case True
  with idle_not_alive [OF idle_closed [OF assms]] show ?thesis
    by (simp add: sub_add_def inner_unsubscribe_wf [OF assms])
next
  case False
  have "k \<in> set (sub_teardowns s)" if "alive s k"
    using that assms by (auto simp: alive_wf wf_def)
  with False show ?thesis
    by (auto simp: sub_add_def)
qed

lemma attach_wf:
  assumes "wf h s" "idle s" "\<not> sub_closed s" "k = shifted s"
  shows "wf False (attach k acts (shift s))" and "newest k (attach k acts (shift s))"
proof -
  let ?t = "subscribe_source k acts (new_inner k (shift s))"
  have w: "wf False ?t \<and> newest k ?t"
    using subscribe_source_wf [OF new_inner_wf [OF assms]] .
  then have "attach k acts (shift s) = ?t"
    by (simp add: attach_def sub_add_wf [of False ?t])
  with w show "wf False (attach k acts (shift s))" and "newest k (attach k acts (shift s))"
    by simp_all
qed

lemma hook_wf:
  assumes "wf False s" "alive s k"
  shows "wf True (upd_inner k (\<lambda>x. x\<lparr>hooked := True\<rparr>) s)"
proof -
  from assms obtain x xs where x: "inners s = x # xs" "src x = k" "\<not> i_closed x"
    by (auto simp: alive_wf)
  then have old: "list_all (\<lambda>y. settled y \<and> src y < src x) xs"
    using assms by (simp add: wf_def)
  have "map (\<lambda>y. if src y = k then y\<lparr>hooked := True\<rparr> else y) xs = xs"
    by (rule map_older [OF old, of k]) (use x in auto)
  then have "upd_inner k (\<lambda>x. x\<lparr>hooked := True\<rparr>) s = s\<lparr>inners := x\<lparr>hooked := True\<rparr> # xs\<rparr>"
    using x by (simp add: upd_inner_def)
  then show ?thesis
    using assms(1) x by (auto simp: wf_def)
qed

lemma not_alive_idle:
  assumes "wf h s" "newest k s" "\<not> alive s k"
  shows "idle s"
  using assms
  by (auto simp: alive_wf newest_def idle_def wf_def settled_def list_all_iff split: list.splits)

lemma subscribeNext_wf: "wf h s \<Longrightarrow> idle s \<Longrightarrow> wf True (subscribeNext s)"
proof (induction s arbitrary: h rule: subscribeNext_induct)
  case (1 s)
  show ?case
  proof (cases "sub_closed s")
    case True
    then show ?thesis
      using wf_idle [OF "1.prems"] by (simp add: subscribeNext_closed)
  next
    case opn: False
    show ?thesis
    proof (cases "queue s")
      case Nil
      then show ?thesis
        using opn "1.prems" wf_completed [OF "1.prems"]
        by (simp add: subscribeNext_empty sub_complete_idle)
    next
      case (Cons e es)
      show ?thesis
      proof (cases e)
        case Invalid
        have "wf True (subscribeNext (shift s))"
          using "1.IH"(1) [OF opn Cons Invalid wf_shift [OF "1.prems"(1)]] "1.prems"(2)
          by simp
        then show ?thesis
          using opn Cons Invalid by (simp add: subscribeNext_Invalid)
      next
        case (Src acts)
        let ?k = "shifted s"
        let ?s' = "attach ?k acts (shift s)"
        note a = attach_wf [OF "1.prems" opn refl, of acts]
        show ?thesis
        proof (cases "alive ?s' ?k")
          case True
          then show ?thesis
            using opn Cons Src hook_wf [OF a(1) True] by (simp add: subscribeNext_Src)
        next
          case False
          have "wf True (subscribeNext ?s')"
            using "1.IH"(2) [OF opn Cons Src refl refl False a(1) not_alive_idle [OF a False]] .
          then show ?thesis
            using opn Cons Src False by (simp add: subscribeNext_Src)
        qed
      qed
    qed
  qed
qed

subsection \<open>Every reachable state is well shaped\<close>

lemma wf_start: "wf h' (start h t ns source)" and idle_start: "idle (start h t ns source)"
  by (simp_all add: wf_def start_def idle_def)

lemma wf_subscribe: "wf True (subscribe h t ns source)"
  unfolding subscribe_def by (rule subscribeNext_wf [OF wf_start idle_start])

lemma step_wf:
  assumes "wf True s"
  shows "wf True (step s e)"
proof (cases e)
  case (Emit k n)
  have "wf True (subscribeNext (fin s))"
    using subscribeNext_wf wf_fin [OF assms, of True] by blast
  then have t: "wf True (inner_terminal subscribeNext k s)"
    using assms by (simp add: inner_terminal_wf [OF assms])
  show ?thesis
    using Emit t inner_next_wf [OF assms] by (cases n) simp_all
next
  case Unsubscribe
  let ?c = "fin (s\<lparr>sub_stopped := True, sub_closed := True\<rparr>)"
  have "sub_closed ?c"
    by (simp add: fin_def)
  then have "subscribeNext ?c = ?c"
    by (rule subscribeNext_closed)
  then show ?thesis
    using Unsubscribe assms wf_cancel(1) [OF assms, of True]
    by (simp add: unsubscribe_wf [OF assms])
qed

lemma run_wf: "wf True s \<Longrightarrow> wf True (run s evs)"
  unfolding run_def
  by (induction evs arbitrary: s) (simp_all add: step_wf)

lemma reach_wf: "wf True (run (subscribe h t ns source) evs)"
  by (rule run_wf [OF wf_subscribe])

lemma wf_n_alive: "wf h s \<Longrightarrow> n_alive s \<le> 1"
  by (auto simp: wf_def n_alive_def settled_def list_all_iff filter_empty_conv split: list.splits)

subsection \<open>Every run is made of the single moves\<close>

lemma moves_trans: "moves c t u \<Longrightarrow> moves c s t \<Longrightarrow> moves c s u"
  by (induction rule: moves.induct) (auto intro: moves.intros)

lemma inner_next_not_alive: "wf h s \<Longrightarrow> \<not> alive s k \<Longrightarrow> inner_next k v s = s"
  using inner_of_wf [of h s k]
  by (auto simp: inner_next_def alive_def split: option.splits)

lemma inner_next_alive:
  assumes "wf h s" "alive s k"
  shows "inner_next k v s = s\<lparr>out := out s @ [Next v], origin := origin s @ [k]\<rparr>"
    and "\<not> sub_stopped s"
proof -
  from assms obtain x xs where x: "inners s = x # xs" "src x = k" "\<not> i_closed x"
    by (auto simp: alive_wf)
  then show "\<not> sub_stopped s"
    using assms(1) by (auto simp: wf_def)
  then show "inner_next k v s = s\<lparr>out := out s @ [Next v], origin := origin s @ [k]\<rparr>"
    using x assms(1) by (auto simp: inner_next_def inner_of_def sub_next_def wf_def)
qed

lemma alive_not_idle: "alive s k \<Longrightarrow> \<not> idle s"
  using idle_not_alive by blast

lemma moves_inner_next: "wf h s \<Longrightarrow> moves c s (inner_next k v s)"
  by (cases "alive s k")
     (auto simp: inner_next_alive inner_next_not_alive intro: moves.intros)

lemma moves_sync_act:
  assumes "wf False s" "c \<or> a \<noteq> Cancel"
  shows "moves c s (sync_act k s a)"
proof (cases a)
  case (Notify n)
  have "moves c s (inner_terminal (\<lambda>t. t) k s)"
    by (auto simp: inner_terminal_wf [OF assms(1)] intro: moves.intros dest: alive_not_idle)
  then show ?thesis
    using Notify moves_inner_next [OF assms(1)] by (cases n) simp_all
next
  case Cancel
  then show ?thesis
    using assms(2) by (auto simp: unsubscribe_wf [OF assms(1)] intro: moves.intros)
qed

lemma moves_subscribe_source:
  "wf False s \<Longrightarrow> newest k s \<Longrightarrow> c \<or> Cancel \<notin> set acts \<Longrightarrow>
   moves c s (subscribe_source j acts s)"
proof (induction acts arbitrary: s)
  case Nil
  show ?case by (simp add: subscribe_source_def moves.start)
next
  case (Cons a acts)
  have w: "wf False (sync_act j s a)" "newest k (sync_act j s a)"
    using sync_act_wf [OF Cons.prems(1,2)] by simp_all
  have "moves c (sync_act j s a) (subscribe_source j acts (sync_act j s a))"
    using Cons.IH [OF w] Cons.prems(3) by auto
  moreover have "moves c s (sync_act j s a)"
    using moves_sync_act [OF Cons.prems(1)] Cons.prems(3) by auto
  ultimately show ?case
    by (simp add: subscribe_source_def moves_trans)
qed

lemma attach_unfold:
  assumes "wf h s" "idle s" "\<not> sub_closed s" "k = shifted s"
  shows "attach k acts (shift s) = subscribe_source k acts (new_inner k (shift s))"
proof -
  let ?t = "subscribe_source k acts (new_inner k (shift s))"
  have "wf False ?t \<and> newest k ?t"
    using subscribe_source_wf [OF new_inner_wf [OF assms]] .
  then show ?thesis
    by (simp add: attach_def sub_add_wf [of False ?t])
qed

lemma moves_attach:
  assumes "wf h s" "idle s" "\<not> sub_closed s" "queue s = Src acts # es"
    and "c \<or> Cancel \<notin> set acts"
  shows "moves c s (attach (shifted s) acts (shift s))"
proof -
  have "moves c s (new_inner (shifted s) (shift s))"
    using assms(1-4) by (auto intro: moves.intros)
  from moves_trans [OF moves_subscribe_source [OF new_inner_wf [OF assms(1-3) refl] assms(5)] this]
  show ?thesis
    by (simp add: attach_unfold [OF assms(1-3) refl])
qed

lemma moves_subscribeNext:
  "wf h s \<Longrightarrow> idle s \<Longrightarrow> c \<or> list_all cancel_free (queue s) \<Longrightarrow> moves c s (subscribeNext s)"
proof (induction s arbitrary: h rule: subscribeNext_induct)
  case (1 s)
  show ?case
  proof (cases "sub_closed s")
    case True
    then show ?thesis
      by (simp add: subscribeNext_closed moves.start)
  next
    case opn: False
    show ?thesis
    proof (cases "queue s")
      case Nil
      then show ?thesis
        using opn "1.prems"(1,2)
        by (auto simp: subscribeNext_empty sub_complete_idle intro: moves.intros)
    next
      case (Cons e es)
      have cf: "c \<or> list_all cancel_free es"
        using "1.prems"(3) Cons by auto
      show ?thesis
      proof (cases e)
        case Invalid
        have "moves c (shift s) (subscribeNext (shift s))"
          using "1.IH"(1) [OF opn Cons Invalid wf_shift [OF "1.prems"(1)]] "1.prems"(2) cf Cons
          by simp
        moreover have "moves c s (shift s)"
          using opn Cons Invalid "1.prems"(2) by (auto intro: moves.intros)
        ultimately show ?thesis
          using opn Cons Invalid by (simp add: subscribeNext_Invalid moves_trans)
      next
        case (Src acts)
        let ?k = "shifted s"
        let ?s' = "attach ?k acts (shift s)"
        note a = attach_wf [OF "1.prems"(1,2) opn refl, of acts]
        have "c \<or> Cancel \<notin> set acts"
          using "1.prems"(3) Cons Src by (auto simp: cancel_free_def)
        then have m: "moves c s ?s'"
          using moves_attach [OF "1.prems"(1,2) opn] Cons Src by simp
        show ?thesis
        proof (cases "alive ?s' ?k")
          case True
          then show ?thesis
            using opn Cons Src m by (auto simp: subscribeNext_Src intro: moves.intros)
        next
          case False
          have "c \<or> list_all cancel_free (queue ?s')"
            using cf Cons by simp
          then have "moves c ?s' (subscribeNext ?s')"
            using "1.IH"(2) [OF opn Cons Src refl refl False a(1) not_alive_idle [OF a False]]
            by simp
          then show ?thesis
            using opn Cons Src False m by (simp add: subscribeNext_Src moves_trans)
        qed
      qed
    qed
  qed
qed

lemma unsubscribe_quiet:
  assumes "wf True s"
  shows "unsubscribe subscribeNext s =
    (if sub_closed s then s else fin (s\<lparr>sub_stopped := True, sub_closed := True\<rparr>))"
proof -
  let ?c = "fin (s\<lparr>sub_stopped := True, sub_closed := True\<rparr>)"
  have "sub_closed ?c"
    by (simp add: fin_def)
  then have "subscribeNext ?c = ?c"
    by (rule subscribeNext_closed)
  then show ?thesis
    by (simp add: unsubscribe_wf [OF assms])
qed

lemma queue_fin [simp]: "queue (fin s) = queue s"
  by (simp add: queue_def fin_def)

lemma moves_step:
  assumes "wf True s" "c \<or> (e \<noteq> Unsubscribe \<and> list_all cancel_free (queue s))"
  shows "moves c s (step s e)"
proof (cases e)
  case (Emit k n)
  have "moves c s (subscribeNext (fin s))" if "alive s k"
  proof -
    have "moves c (fin s) (subscribeNext (fin s))"
      using moves_subscribeNext [of True "fin s" c] wf_fin [OF assms(1), of True] assms(2)
      by auto
    moreover have "moves c s (fin s)"
      using that by (auto intro: moves.intros dest: alive_not_idle)
    ultimately show ?thesis
      by (rule moves_trans)
  qed
  then have "moves c s (inner_terminal subscribeNext k s)"
    by (auto simp: inner_terminal_wf [OF assms(1)] intro: moves.intros)
  then show ?thesis
    using Emit moves_inner_next [OF assms(1)] by (cases n) simp_all
next
  case Unsubscribe
  then show ?thesis
    using assms(2) by (auto simp: unsubscribe_quiet [OF assms(1)] intro: moves.intros)
qed

lemma new_inner_open:
  "\<not> sub_closed s \<Longrightarrow>
   \<exists>ts. new_inner k s =
     s\<lparr>inners := \<lparr>src = k, i_closed = False, i_stopped = False, hooked = False\<rparr> # inners s,
       peak_alive := max (peak_alive s) (Suc (n_alive s)), sub_teardowns := ts\<rparr>"
proof (cases "k \<in> set (sub_teardowns s)")
  case True
  assume "\<not> sub_closed s"
  with True show ?thesis
    by (intro exI [of _ "sub_teardowns s"])
       (simp add: new_inner_def sub_add_def Let_def n_alive_def alive_def inner_of_def)
next
  case False
  assume "\<not> sub_closed s"
  with False show ?thesis
    by (intro exI [of _ "sub_teardowns s @ [k]"])
       (simp add: new_inner_def sub_add_def Let_def n_alive_def alive_def inner_of_def)
qed

lemma sub_closed_shift [simp]: "sub_closed (shift s) = sub_closed s"
  by (simp add: shift_def)

lemma idle_upd_hook [simp]: "idle (upd_inner k (\<lambda>x. x\<lparr>hooked := True\<rparr>) s) = idle s"
proof -
  have "list_all i_closed (map (\<lambda>x. if src x = k then x\<lparr>hooked := True\<rparr> else x) xs)
      = list_all i_closed xs" for xs
    by (induction xs) auto
  then show ?thesis
    by (simp add: idle_def upd_inner_def)
qed

lemma queue_upd_inner [simp]: "queue (upd_inner k f s) = queue s"
  by (simp add: queue_def upd_inner_def)

lemma out_ok_moves: "moves c s t \<Longrightarrow> out_ok s \<Longrightarrow> out_ok t"
proof (induction rule: moves.induct)
  case start
  then show ?case .
next
  case (forward t k v)
  then show ?case by (auto simp: out_ok_def)
next
  case (finalize t)
  then show ?case by (auto simp: out_ok_def fin_def)
next
  case (cancel t)
  then show ?case by (auto simp: out_ok_def fin_def)
next
  case (complete t)
  then show ?case by (auto simp: out_ok_def queue_def idle_def)
next
  case (skip t es)
  then show ?case by (auto simp: out_ok_def shift_def)
next
  case (create t acts es)
  from new_inner_open [of "shift t" "shifted t"] create.hyps(3)
  obtain ts where "new_inner (shifted t) (shift t) =
     shift t\<lparr>inners := \<lparr>src = shifted t, i_closed = False, i_stopped = False, hooked = False\<rparr>
        # inners (shift t),
       peak_alive := max (peak_alive (shift t)) (Suc (n_alive (shift t))), sub_teardowns := ts\<rparr>"
    by auto
  then show ?case
    using create by (auto simp: out_ok_def shift_def)
next
  case (hook t k)
  then show ?case by (auto simp: out_ok_def upd_inner_def dest: alive_not_idle)
qed

lemma filter_upt_Suc:
  "filter P [0..<Suc n] = (if P n then filter P [0..<n] @ [n] else filter P [0..<n])"
  by simp

lemma consumed_moves: "moves c s t \<Longrightarrow> consumed init s \<Longrightarrow> consumed init t"
proof (induction rule: moves.induct)
  case start
  then show ?case .
next
  case (forward t k v)
  then show ?case by (simp add: consumed_def queue_def)
next
  case (finalize t)
  then show ?case by (auto simp: consumed_def fin_def queue_def split: list.splits)
next
  case (cancel t)
  then show ?case by (auto simp: consumed_def fin_def queue_def split: list.splits)
next
  case (complete t)
  then show ?case by (simp add: consumed_def queue_def)
next
  case (skip t es)
  then have c: "consumed init t" by simp
  then have d: "drop (shifted t) init = Invalid # es"
    using skip.hyps(4) by (simp add: consumed_def)
  then have l: "shifted t < length init"
    by (cases "shifted t < length init") auto
  have n: "init ! shifted t = Invalid" and r: "drop (Suc (shifted t)) init = es"
    using d l by (simp_all add: Cons_nth_drop_Suc [symmetric])
  show ?case
    using c l n r skip.hyps(4) by (simp add: consumed_def shift_def queue_def)
next
  case (create t acts es)
  then have c: "consumed init t" by simp
  then have d: "drop (shifted t) init = Src acts # es"
    using create.hyps(4) by (simp add: consumed_def)
  then have l: "shifted t < length init"
    by (cases "shifted t < length init") auto
  have n: "init ! shifted t = Src acts" and r: "drop (Suc (shifted t)) init = es"
    using d l by (simp_all add: Cons_nth_drop_Suc [symmetric])
  from new_inner_open [of "shift t" "shifted t"] create.hyps(3)
  obtain ts where "new_inner (shifted t) (shift t) =
     shift t\<lparr>inners := \<lparr>src = shifted t, i_closed = False, i_stopped = False, hooked = False\<rparr>
        # inners (shift t),
       peak_alive := max (peak_alive (shift t)) (Suc (n_alive (shift t))), sub_teardowns := ts\<rparr>"
    by auto
  then show ?case
    using c l n r create.hyps(4) by (simp add: consumed_def shift_def queue_def)
next
  case (hook t k)
  then show ?case by (simp add: consumed_def upd_inner_def queue_def comp_def if_distrib cong: if_cong)
qed

lemma frame_moves:
  "moves c s t \<Longrightarrow>
   remaining t = remaining s \<and> top t = top s \<and> (\<forall>a. a \<noteq> remaining s \<longrightarrow> heap t a = heap s a)"
proof (induction rule: moves.induct)
  case (create t acts es)
  from new_inner_open [of "shift t" "shifted t"] create.hyps(3)
  obtain ts where "new_inner (shifted t) (shift t) =
     shift t\<lparr>inners := \<lparr>src = shifted t, i_closed = False, i_stopped = False, hooked = False\<rparr>
        # inners (shift t),
       peak_alive := max (peak_alive (shift t)) (Suc (n_alive (shift t))), sub_teardowns := ts\<rparr>"
    by auto
  then show ?case
    using create by (simp add: shift_def)
qed (simp_all add: fin_def shift_def upd_inner_def)

lemma queue_moves: "moves c s t \<Longrightarrow> \<exists>n. queue t = drop n (queue s)"
proof (induction rule: moves.induct)
  case start
  show ?case by (rule exI [of _ 0]) simp
next
  case (skip t es)
  then obtain n where "queue t = drop n (queue s)" by auto
  then have "queue (shift t) = drop (Suc n) (queue s)"
    by (simp add: drop_Suc tl_drop)
  then show ?case ..
next
  case (create t acts es)
  then obtain n where "queue t = drop n (queue s)" by auto
  then have "queue (shift t) = drop (Suc n) (queue s)"
    by (simp add: drop_Suc tl_drop)
  moreover have "queue (new_inner (shifted t) (shift t)) = queue (shift t)"
    by (rule queue_same_arrays) simp
  ultimately show ?case by auto
qed (simp_all add: queue_def fin_def upd_inner_def)

lemma list_all_drop: "list_all P xs \<Longrightarrow> list_all P (drop n xs)"
  by (auto simp: list_all_iff dest: in_set_dropD)

lemma moves_run:
  "wf True s \<Longrightarrow> c \<or> (Unsubscribe \<notin> set evs \<and> list_all cancel_free (queue s)) \<Longrightarrow>
   moves c s (run s evs)"
proof (induction evs arbitrary: s)
  case Nil
  show ?case by (simp add: run_def moves.start)
next
  case (Cons e evs)
  have m: "moves c s (step s e)"
    using moves_step [OF Cons.prems(1)] Cons.prems(2) by auto
  from queue_moves [OF m] obtain n where "queue (step s e) = drop n (queue s)" ..
  then have "c \<or> (Unsubscribe \<notin> set evs \<and> list_all cancel_free (queue (step s e)))"
    using Cons.prems(2) by (auto simp: list_all_drop)
  then have "moves c (step s e) (run (step s e) evs)"
    using Cons.IH step_wf [OF Cons.prems(1)] by simp
  from moves_trans [OF this m] show ?case
    by (simp add: run_def)
qed

lemma queue_start [simp]: "queue (start h t ns source) = Src source # h ns"
  by (simp add: queue_def start_def)

lemma moves_reach:
  assumes "c \<or> (Unsubscribe \<notin> set evs \<and> list_all cancel_free (Src source # h ns))"
  shows "moves c (start h t ns source) (run (subscribe h t ns source) evs)"
proof -
  have m: "moves c (start h t ns source) (subscribe h t ns source)"
    unfolding subscribe_def using assms
    by (intro moves_subscribeNext [OF wf_start idle_start]) auto
  from queue_moves [OF m] obtain n
    where "queue (subscribe h t ns source) = drop n (Src source # h ns)" by auto
  then have "c \<or> (Unsubscribe \<notin> set evs \<and> list_all cancel_free (queue (subscribe h t ns source)))"
    using assms by (auto simp: list_all_drop simp del: drop_Suc_Cons)
  then have "moves c (subscribe h t ns source) (run (subscribe h t ns source) evs)"
    by (rule moves_run [OF wf_subscribe])
  then show ?thesis
    using m by (rule moves_trans)
qed

subsection \<open>Sources that are finished when their subscribe call returns\<close>

lemma subscribeNext_depth_closed: "sub_closed s \<Longrightarrow> subscribeNext_depth s = 1"
  by (subst subscribeNext_depth.simps) simp

lemma subscribeNext_depth_empty:
  "\<not> sub_closed s \<Longrightarrow> queue s = [] \<Longrightarrow> subscribeNext_depth s = 1"
  by (subst subscribeNext_depth.simps) simp

lemma subscribeNext_depth_Invalid:
  "\<not> sub_closed s \<Longrightarrow> queue s = Invalid # xs \<Longrightarrow>
   subscribeNext_depth s = Suc (subscribeNext_depth (shift s))"
  by (subst subscribeNext_depth.simps) simp

lemma subscribeNext_depth_Src:
  "\<not> sub_closed s \<Longrightarrow> queue s = Src acts # xs \<Longrightarrow>
   subscribeNext_depth s =
     (if alive (attach (shifted s) acts (shift s)) (shifted s) then 1
      else Suc (subscribeNext_depth (attach (shifted s) acts (shift s))))"
  by (subst subscribeNext_depth.simps) (simp add: Let_def)

lemma sync_act_idle:
  assumes "wf False s" "idle s" "a \<noteq> Cancel"
  shows "sync_act k s a = s"
proof (cases a)
  case (Notify n)
  then show ?thesis
    using assms idle_not_alive [OF assms(2), of k]
    by (cases n) (simp_all add: inner_next_not_alive inner_terminal_wf)
next
  case Cancel
  with assms show ?thesis by simp
qed

lemma subscribe_source_idle:
  "wf False s \<Longrightarrow> idle s \<Longrightarrow> Cancel \<notin> set acts \<Longrightarrow> subscribe_source k acts s = s"
  unfolding subscribe_source_def
  by (induction acts) (auto simp: sync_act_idle)

lemma alive_forward [simp]:
  "alive (s\<lparr>out := xs, origin := ys\<rparr>) k = alive s k"
  by (simp add: alive_def inner_of_def)

lemma newest_forward [simp]:
  "newest k (s\<lparr>out := xs, origin := ys\<rparr>) = newest k s"
  by (simp add: newest_def)

lemma subscribe_source_ends:
  assumes "wf False s" "newest k s" "alive s k" "ends acts" "Cancel \<notin> set acts"
  shows "out (subscribe_source k acts s) = out s @ map Next (emitted acts)
    \<and> \<not> alive (subscribe_source k acts s) k
    \<and> sub_closed (subscribe_source k acts s) = sub_closed s"
  using assms
proof (induction acts arbitrary: s)
  case Nil
  then show ?case by simp
next
  case (Cons a acts)
  show ?case
  proof (cases a)
    case Cancel
    with Cons.prems show ?thesis by simp
  next
    case (Notify n)
    show ?thesis
    proof (cases n)
      case (Next v)
      let ?s1 = "s\<lparr>out := out s @ [Next v], origin := origin s @ [k]\<rparr>"
      have e: "sync_act k s a = ?s1"
        using Notify Next inner_next_alive(1) [OF Cons.prems(1,3)] by simp
      have w: "wf False ?s1"
        using inner_next_wf [OF Cons.prems(1), of k v] inner_next_alive(1) [OF Cons.prems(1,3)]
        by simp
      have "out (subscribe_source k acts ?s1) = out ?s1 @ map Next (emitted acts)
        \<and> \<not> alive (subscribe_source k acts ?s1) k
        \<and> sub_closed (subscribe_source k acts ?s1) = sub_closed ?s1"
        using Cons.prems Notify Next by (intro Cons.IH w) simp_all
      then show ?thesis
        using e Notify Next by (simp add: subscribe_source_def)
    next
      case (Error x)
      have e: "sync_act k s a = fin s"
        using Notify Error Cons.prems by (simp add: inner_terminal_wf)
      have "subscribe_source k acts (fin s) = fin s"
        using wf_fin [OF Cons.prems(1), of False] Cons.prems(5)
        by (intro subscribe_source_idle) simp_all
      then show ?thesis
        using e Notify Error wf_fin [OF Cons.prems(1), of False] idle_not_alive [of "fin s" k]
        by (simp add: subscribe_source_def) (simp add: fin_def)
    next
      case Complete
      have e: "sync_act k s a = fin s"
        using Notify Complete Cons.prems by (simp add: inner_terminal_wf)
      have "subscribe_source k acts (fin s) = fin s"
        using wf_fin [OF Cons.prems(1), of False] Cons.prems(5)
        by (intro subscribe_source_idle) simp_all
      then show ?thesis
        using e Notify Complete wf_fin [OF Cons.prems(1), of False] idle_not_alive [of "fin s" k]
        by (simp add: subscribe_source_def) (simp add: fin_def)
    qed
  qed
qed

lemma new_inner_alive:
  assumes "\<not> sub_closed s"
  shows "alive (new_inner k s) k" and "out (new_inner k s) = out s"
    and "sub_closed (new_inner k s) = sub_closed s"
  using new_inner_open [OF assms, of k]
  by (auto simp: alive_def inner_of_def)

lemma out_shift: "out (shift s) = out s"
  by (simp add: shift_def)

lemma attach_ends:
  assumes "wf h s" "idle s" "\<not> sub_closed s" "ends acts" "Cancel \<notin> set acts"
  shows "out (attach (shifted s) acts (shift s)) = out s @ map Next (emitted acts)"
    and "\<not> alive (attach (shifted s) acts (shift s)) (shifted s)"
    and "\<not> sub_closed (attach (shifted s) acts (shift s))"
proof -
  let ?n = "new_inner (shifted s) (shift s)"
  have o: "\<not> sub_closed (shift s)"
    using assms(3) by simp
  note n = new_inner_wf [OF assms(1-3) refl] new_inner_alive [OF o, of "shifted s"]
  note e = subscribe_source_ends [OF n(1,2,3) assms(4,5)]
  show "out (attach (shifted s) acts (shift s)) = out s @ map Next (emitted acts)"
    and "\<not> alive (attach (shifted s) acts (shift s)) (shifted s)"
    and "\<not> sub_closed (attach (shifted s) acts (shift s))"
    using e n(4,5) assms(3)
    by (simp_all add: attach_unfold [OF assms(1-3) refl] out_shift)
qed

lemma drain:
  "wf h s \<Longrightarrow> idle s \<Longrightarrow> \<not> sub_closed s \<Longrightarrow> list_all immediate (queue s) \<Longrightarrow>
   out (subscribeNext s) = out s @ map Next (concat (map entry_values (queue s))) @ [Complete]
   \<and> sub_closed (subscribeNext s) \<and> queue (subscribeNext s) = []
   \<and> subscribeNext_depth s = Suc (length (queue s))"
proof (induction s arbitrary: h rule: subscribeNext_induct)
  case (1 s)
  note opn = "1.prems"(3)
  show ?case
  proof (cases "queue s")
    case Nil
    then show ?thesis
      using opn "1.prems"(1,2)
      by (simp add: subscribeNext_empty sub_complete_idle subscribeNext_depth_empty queue_def)
  next
    case (Cons e es)
    have im: "list_all immediate es"
      using "1.prems"(4) Cons by simp
    show ?thesis
    proof (cases e)
      case Invalid
      have "out (subscribeNext (shift s)) =
          out (shift s) @ map Next (concat (map entry_values (queue (shift s)))) @ [Complete]
        \<and> sub_closed (subscribeNext (shift s)) \<and> queue (subscribeNext (shift s)) = []
        \<and> subscribeNext_depth (shift s) = Suc (length (queue (shift s)))"
        using "1.prems"(2) opn im Cons
        by (intro "1.IH"(1) [OF opn Cons Invalid wf_shift [OF "1.prems"(1)]]) simp_all
      then show ?thesis
        using opn Cons Invalid
        by (simp add: subscribeNext_Invalid subscribeNext_depth_Invalid)
           (simp add: shift_def)
    next
      case (Src acts)
      let ?k = "shifted s"
      let ?s' = "attach ?k acts (shift s)"
      have ea: "ends acts" "Cancel \<notin> set acts"
        using "1.prems"(4) Cons Src by simp_all
      note a = attach_wf [OF "1.prems"(1,2) opn refl, of acts]
      note b = attach_ends [OF "1.prems"(1,2) opn ea]
      have "out (subscribeNext ?s') =
          out ?s' @ map Next (concat (map entry_values (queue ?s'))) @ [Complete]
        \<and> sub_closed (subscribeNext ?s') \<and> queue (subscribeNext ?s') = []
        \<and> subscribeNext_depth ?s' = Suc (length (queue ?s'))"
        using im Cons b(3)
        by (intro "1.IH"(2) [OF opn Cons Src refl refl b(2) a(1) not_alive_idle [OF a b(2)]])
           simp_all
      then show ?thesis
        using opn Cons Src b
        by (simp add: subscribeNext_Src subscribeNext_depth_Src)
    qed
  qed
qed

lemmas eval_defs = onErrorResumeNext_def subscribe_def start_def run_def subscribeNext_closed
  subscribeNext_empty subscribeNext_Invalid subscribeNext_Src queue_def shift_def attach_def
  new_inner_def sub_add_def subscribe_source_def alive_def inner_of_def n_alive_def
  inner_next_def sub_next_def inner_terminal_def inner_unsubscribe_def close_inner_def
  upd_inner_def unsubscribe_def sub_complete_def idle_def Let_def

subsection \<open>After the subscriber has closed nothing changes\<close>

lemma step_closed:
  assumes "wf True s" "sub_closed s"
  shows "step s e = s"
proof (cases e)
  case (Emit k n)
  have "\<not> alive s k"
    using idle_not_alive [OF idle_closed [OF assms]] .
  then show ?thesis
    using Emit assms(1) by (cases n) (simp_all add: inner_next_not_alive inner_terminal_wf)
next
  case Unsubscribe
  then show ?thesis
    using assms(2) by (simp add: unsubscribe_def)
qed

lemma run_closed: "wf True s \<Longrightarrow> sub_closed s \<Longrightarrow> run s evs = s"
  unfolding run_def by (induction evs) (simp_all add: step_closed)

lemma run_append: "run s (evs @ evs') = run (run s evs) evs'"
  by (simp add: run_def)

lemma run_Cons: "run s (e # evs) = run (step s e) evs"
  by (simp add: run_def)

lemma cancel_effect:
  assumes "wf True s"
  shows "sub_closed (step s Unsubscribe)" and "idle (step s Unsubscribe)"
    and "out (step s Unsubscribe) = out s" and "queue (step s Unsubscribe) = queue s"
    and "shifted (step s Unsubscribe) = shifted s"
    and "map src (inners (step s Unsubscribe)) = map src (inners s)"
proof -
  let ?c = "fin (s\<lparr>sub_stopped := True, sub_closed := True\<rparr>)"
  have e: "unsubscribe subscribeNext s = (if sub_closed s then s else ?c)"
    by (simp add: unsubscribe_quiet [OF assms])
  show "sub_closed (step s Unsubscribe)"
    by (simp add: e fin_def)
  show "idle (step s Unsubscribe)"
    using idle_closed [OF assms] wf_cancel(2) [OF assms] by (simp add: e)
  show "out (step s Unsubscribe) = out s"
    by (simp add: e fin_def)
  show "queue (step s Unsubscribe) = queue s"
    by (simp add: e queue_def fin_def)
  show "shifted (step s Unsubscribe) = shifted s"
    by (simp add: e fin_def)
  show "map src (inners (step s Unsubscribe)) = map src (inners s)"
    by (simp add: e fin_def split: list.splits)
qed

subsection \<open>What the sink receives\<close>

lemma subscribeNext_settles:
  "wf h s \<Longrightarrow> idle s \<Longrightarrow> sub_closed (subscribeNext s) \<or> \<not> idle (subscribeNext s)"
proof (induction s arbitrary: h rule: subscribeNext_induct)
  case (1 s)
  show ?case
  proof (cases "sub_closed s")
    case True
    then show ?thesis by (simp add: subscribeNext_closed)
  next
    case opn: False
    show ?thesis
    proof (cases "queue s")
      case Nil
      then show ?thesis
        using opn "1.prems" by (simp add: subscribeNext_empty sub_complete_idle)
    next
      case (Cons e es)
      show ?thesis
      proof (cases e)
        case Invalid
        then show ?thesis
          using "1.IH"(1) [OF opn Cons Invalid wf_shift [OF "1.prems"(1)]] "1.prems"(2) opn Cons
          by (simp add: subscribeNext_Invalid)
      next
        case (Src acts)
        let ?k = "shifted s"
        let ?s' = "attach ?k acts (shift s)"
        note a = attach_wf [OF "1.prems" opn refl, of acts]
        show ?thesis
        proof (cases "alive ?s' ?k")
          case True
          then show ?thesis
            using opn Cons Src alive_not_idle [OF True] by (simp add: subscribeNext_Src)
        next
          case False
          then show ?thesis
            using "1.IH"(2) [OF opn Cons Src refl refl False a(1) not_alive_idle [OF a False]]
              opn Cons Src
            by (simp add: subscribeNext_Src)
        qed
      qed
    qed
  qed
qed

lemma step_settles:
  assumes "wf True s" "idle s \<longrightarrow> sub_closed s"
  shows "idle (step s e) \<longrightarrow> sub_closed (step s e)"
proof (cases e)
  case (Emit k n)
  have t: "idle (inner_terminal subscribeNext k s) \<longrightarrow> sub_closed (inner_terminal subscribeNext k s)"
    using subscribeNext_settles [of True "fin s"] wf_fin [OF assms(1), of True] assms(2)
    by (auto simp: inner_terminal_wf [OF assms(1)])
  have "idle (inner_next k v s) \<longrightarrow> sub_closed (inner_next k v s)" for v
    using assms by (cases "alive s k")
      (auto simp: inner_next_alive inner_next_not_alive idle_def dest: alive_not_idle)
  with t Emit show ?thesis by (cases n) simp_all
next
  case Unsubscribe
  then show ?thesis
    by (simp add: unsubscribe_quiet [OF assms(1)] fin_def)
qed

lemma run_settles:
  "wf True s \<Longrightarrow> idle s \<longrightarrow> sub_closed s \<Longrightarrow> idle (run s evs) \<longrightarrow> sub_closed (run s evs)"
proof (induction evs arbitrary: s)
  case Nil
  then show ?case by (simp add: run_def)
next
  case (Cons e evs)
  from Cons.IH [OF step_wf [OF Cons.prems(1)] step_settles [OF Cons.prems]]
  show ?case by (simp add: run_Cons)
qed

lemma reach_settles:
  "idle (run (subscribe h t ns source) evs) \<longrightarrow> sub_closed (run (subscribe h t ns source) evs)"
proof -
  have "sub_closed (subscribe h t ns source) \<or> \<not> idle (subscribe h t ns source)"
    unfolding subscribe_def by (rule subscribeNext_settles [OF wf_start idle_start])
  then show ?thesis
    by (intro run_settles [OF wf_subscribe]) auto
qed

lemma closed_by_complete:
  "moves False s t \<Longrightarrow> sub_closed s \<longrightarrow> Complete \<in> set (out s) \<Longrightarrow>
   sub_closed t \<longrightarrow> Complete \<in> set (out t)"
proof (induction rule: moves.induct)
  case (create t acts es)
  then show ?case
    using new_inner_alive(2,3) [of "shift t" "shifted t"] by (simp add: out_shift)
qed (auto simp: fin_def shift_def upd_inner_def)

lemma origin_moves:
  "moves c s t \<Longrightarrow> length (origin s) = length (filter is_next (out s)) \<Longrightarrow>
   length (origin t) = length (filter is_next (out t))"
proof (induction rule: moves.induct)
  case (create t acts es)
  from new_inner_open [of "shift t" "shifted t"] create.hyps(3)
  obtain ts where "new_inner (shifted t) (shift t) =
     shift t\<lparr>inners := \<lparr>src = shifted t, i_closed = False, i_stopped = False, hooked = False\<rparr>
        # inners (shift t),
       peak_alive := max (peak_alive (shift t)) (Suc (n_alive (shift t))), sub_teardowns := ts\<rparr>"
    by auto
  then show ?case
    using create by (simp add: shift_def)
qed (auto simp: fin_def shift_def upd_inner_def)

lemma values_no_terminal:
  assumes "list_all is_next xs"
  shows "Error e \<notin> set xs" and "Complete \<notin> set xs" and "filter (\<lambda>n. n = Complete) xs = []"
  using assms by (induction xs) auto

lemma out_ok_start: "out_ok (start h t ns source)"
  by (simp add: out_ok_def start_def)

lemma reach_out_ok: "out_ok (run (subscribe h t ns source) evs)"
  by (rule out_ok_moves [OF moves_reach [of True] out_ok_start]) simp

lemma out_ok_cases:
  assumes "out_ok s"
  obtains (only_values) "list_all is_next (out s)"
  | (completed) ys where "out s = ys @ [Complete]" "list_all is_next ys"
      "sub_closed s" "queue s = []" "idle s"
proof (cases "list_all is_next (out s)")
  case True
  then show ?thesis by (rule only_values)
next
  case False
  with assms have c: "out s \<noteq> []" "last (out s) = Complete"
    "list_all is_next (butlast (out s))" "sub_closed s" "queue s = []" "idle s"
    by (auto simp: out_ok_def)
  from c(1,2) have e: "out s = butlast (out s) @ [Complete]"
    by (metis append_butlast_last_id)
  show ?thesis
    by (rule completed [OF e c(3-6)])
qed

lemma emitted_values:
  "emitted (map (\<lambda>v. Notify (Next v)) vs @ [Notify (Error e)]) = vs"
  "emitted (map (\<lambda>v. Notify (Next v)) vs @ [Notify Complete]) = vs"
  "ends (map (\<lambda>v. Notify (Next v)) vs @ [Notify (Error e)])"
  "ends (map (\<lambda>v. Notify (Next v)) vs @ [Notify Complete])"
  by (induction vs) simp_all

lemma drain_start:
  assumes "list_all immediate (Src source # h ns)"
  shows "out (subscribe h t ns source) = map Next (concat (map entry_values (Src source # h ns))) @ [Complete]"
    and "sub_closed (subscribe h t ns source)" and "queue (subscribe h t ns source) = []"
    and "subscribeNext_depth (start h t ns source) = length (h ns) + 2"
proof -
  have o: "\<not> sub_closed (start h t ns source)" "out (start h t ns source) = []"
    by (simp_all add: start_def)
  note d = drain [OF wf_start [of False] idle_start o(1)]
  show "out (subscribe h t ns source) = map Next (concat (map entry_values (Src source # h ns))) @ [Complete]"
    and "sub_closed (subscribe h t ns source)" and "queue (subscribe h t ns source) = []"
    and "subscribeNext_depth (start h t ns source) = length (h ns) + 2"
    using d assms o(2) by (simp_all add: subscribe_def)
qed

lemma run_values:
  "wf True s \<Longrightarrow> alive s k \<Longrightarrow>
   run s (map (\<lambda>v. Emit k (Next v)) vs) =
     s\<lparr>out := out s @ map Next vs, origin := origin s @ replicate (length vs) k\<rparr>"
proof (induction vs arbitrary: s)
  case Nil
  then show ?case by (simp add: run_def)
next
  case (Cons v vs)
  let ?s1 = "s\<lparr>out := out s @ [Next v], origin := origin s @ [k]\<rparr>"
  have e: "step s (Emit k (Next v)) = ?s1"
    using inner_next_alive(1) [OF Cons.prems] by simp
  have "wf True ?s1"
    using step_wf [OF Cons.prems(1), of "Emit k (Next v)"] e by simp
  from Cons.IH [OF this] Cons.prems(2) show ?case
    by (simp add: run_Cons e replicate_app_Cons_same del: step.simps)
qed

lemma terminal_completes:
  assumes "wf True s" "alive s k" "queue s = []"
  shows "out (inner_terminal subscribeNext k s) = out s @ [Complete]"
    and "sub_closed (inner_terminal subscribeNext k s)"
proof -
  have o: "\<not> sub_closed (fin s)"
    using inner_next_alive(2) [OF assms(1,2)] assms(1) by (simp add: wf_def fin_def)
  have q: "queue (fin s) = []"
    using assms(3) by simp
  note w = wf_fin [OF assms(1), of True]
  have "inner_terminal subscribeNext k s = sub_complete (\<lambda>t. t) (fin s)"
    using assms(2) o q by (simp add: inner_terminal_wf [OF assms(1)] subscribeNext_empty)
  then show "out (inner_terminal subscribeNext k s) = out s @ [Complete]"
    and "sub_closed (inner_terminal subscribeNext k s)"
    using w o by (simp_all add: sub_complete_idle [of True "fin s"]) (simp add: fin_def)
qed

lemma lone_source:
  "wf True (onErrorResumeNext [] [])" "alive (onErrorResumeNext [] []) 0"
  "queue (onErrorResumeNext [] []) = []" "out (onErrorResumeNext [] []) = []"
  by (simp add: onErrorResumeNext_def wf_subscribe) (simp_all add: eval_defs)

lemma lone_source_run:
  assumes "n = Error e \<or> n = Complete"
  shows "out (run (onErrorResumeNext [] []) (map (\<lambda>v. Emit 0 (Next v)) vs @ [Emit 0 n]))
    = map Next vs @ [Complete]"
proof -
  let ?s = "onErrorResumeNext [] [] :: ('a, 'b) state"
  let ?s1 = "?s\<lparr>out := out ?s @ map Next vs, origin := origin ?s @ replicate (length vs) 0\<rparr>"
  have r: "run ?s (map (\<lambda>v. Emit 0 (Next v)) vs) = ?s1"
    by (rule run_values [OF lone_source(1,2)])
  have w: "wf True ?s1"
    unfolding r [symmetric] by (rule run_wf [OF lone_source(1)])
  have a: "alive ?s1 0" "queue ?s1 = []"
    using lone_source(2,3) by (simp_all add: queue_def)
  have "step ?s1 (Emit 0 n) = inner_terminal subscribeNext 0 ?s1"
    using assms by auto
  then have "out (step ?s1 (Emit 0 n)) = out ?s1 @ [Complete]"
    using terminal_completes(1) [OF w a] by simp
  then show ?thesis
    using lone_source(4) by (simp add: run_append r run_Cons del: step.simps) (simp add: run_def)
qed

lemma drain_operator:
  assumes "list_all immediate (Src source # fs)"
  shows "out (onErrorResumeNext fs source)
      = map Next (concat (map entry_values (Src source # fs))) @ [Complete]"
    and "sub_closed (onErrorResumeNext fs source)" and "queue (onErrorResumeNext fs source) = []"
    and "subscribeNext_depth (start ((\<lambda>_. [])(0 := fs)) 1 0 source) = length fs + 2"
  using drain_start [of source "(\<lambda>_. [])(0 := fs)" 0 1] assms
  by (simp_all add: onErrorResumeNext_def)

subsection \<open>A conversion failure and an immediate error look the same\<close>


lemma idle_live: "wf h s \<Longrightarrow> idle s \<longleftrightarrow> live s = None"
  by (auto simp: idle_def live_def wf_def settled_def list_all_iff split: list.splits)


lemma sim_idle: "wf h s \<Longrightarrow> wf h' t \<Longrightarrow> sim e s t \<Longrightarrow> idle s = idle t"
  by (simp add: idle_live sim_def)


lemma live_fin [simp]: "live (fin s) = None"
  by (cases "inners s") (simp_all add: live_def fin_def)

lemma fin_fields [simp]:
  "out (fin s) = out s" "origin (fin s) = origin s" "sub_closed (fin s) = sub_closed s"
  "sub_stopped (fin s) = sub_stopped s" "shifted (fin s) = shifted s" "sub_teardowns (fin s) = []"
  by (simp_all add: fin_def)
















lemma chain_immediate:
  "list_all immediate (Src [Notify Complete] # replicate n (Src [Notify Complete]))"
  "concat (map entry_values (Src [Notify Complete] # replicate n (Src [Notify Complete]))) = []"
  by (induction n) simp_all

lemma chain_depth:
  "subscribeNext_depth
     (start ((\<lambda>_. [])(0 := replicate n (Src [Notify Complete]))) 1 0 [Notify Complete]) = n + 2"
  using drain_operator(4) [OF chain_immediate(1), of n] by simp

subsection \<open>Passing the identity for the teardown loses nothing\<close>

lemma sub_closed_close_inner [simp]: "sub_closed (close_inner k s) = sub_closed s"
  by (simp add: close_inner_def upd_inner_def)

lemma inner_unsubscribe_closed:
  "sub_closed s \<Longrightarrow> inner_unsubscribe subscribeNext k s = inner_unsubscribe (\<lambda>t. t) k s"
  by (simp add: inner_unsubscribe_def subscribeNext_closed split: option.splits)

lemma sub_closed_inner_unsubscribe:
  "sub_closed s \<Longrightarrow> sub_closed (inner_unsubscribe (\<lambda>t. t) k s)"
  by (simp add: inner_unsubscribe_def split: option.splits)

lemma foldl_unsubscribe_closed:
  "sub_closed s \<Longrightarrow>
   foldl (\<lambda>t k. inner_unsubscribe subscribeNext k t) s ks =
   foldl (\<lambda>t k. inner_unsubscribe (\<lambda>t. t) k t) s ks"
  by (induction ks arbitrary: s)
     (simp_all add: inner_unsubscribe_closed sub_closed_inner_unsubscribe)

lemma unsubscribe_subscribeNext: "unsubscribe subscribeNext s = unsubscribe (\<lambda>t. t) s"
  by (simp add: unsubscribe_def foldl_unsubscribe_closed)

lemma sub_complete_subscribeNext: "sub_complete subscribeNext s = sub_complete (\<lambda>t. t) s"
  by (simp add: sub_complete_def unsubscribe_subscribeNext)

lemma sync_subscribeNext:
  assumes "wf False s"
  shows "inner_notify subscribeNext k n s = inner_notify (\<lambda>t. t) k n s"
    and "sub_add subscribeNext k s = sub_add (\<lambda>t. t) k s"
proof -
  show "inner_notify subscribeNext k n s = inner_notify (\<lambda>t. t) k n s"
    by (cases n) (simp_all add: inner_terminal_wf [OF assms])
  show "sub_add subscribeNext k s = sub_add (\<lambda>t. t) k s"
    by (simp add: sub_add_def inner_unsubscribe_wf [OF assms])
qed

lemma sync_act_closed:
  assumes "wf False s" "sub_closed s"
  shows "sync_act k s a = s"
proof (cases a)
  case (Notify n)
  then show ?thesis
    using sync_act_idle [OF assms(1) idle_closed [OF assms], of a k] by simp
next
  case Cancel
  then show ?thesis
    using assms(2) by (simp add: unsubscribe_def)
qed

lemma subscribe_source_closed:
  "wf False s \<Longrightarrow> sub_closed s \<Longrightarrow> subscribe_source k acts s = s"
  unfolding subscribe_source_def
  by (induction acts) (simp_all add: sync_act_closed)

lemma subscribe_source_append:
  "subscribe_source k (acts @ acts') s = subscribe_source k acts' (subscribe_source k acts s)"
  by (simp add: subscribe_source_def)

lemma subscribe_source_cancel:
  assumes "wf False s" "newest k s"
  shows "sub_closed (subscribe_source k (acts @ Cancel # acts') s)"
    and "wf False (subscribe_source k (acts @ Cancel # acts') s)"
    and "out (subscribe_source k (acts @ Cancel # acts') s) = out (subscribe_source k acts s)"
proof -
  let ?s1 = "subscribe_source k acts s"
  let ?s2 = "sync_act k ?s1 Cancel"
  note w1 = subscribe_source_wf [OF assms, of k acts]
  have w2: "wf False ?s2"
    using sync_act_wf [of ?s1 k k Cancel] w1 by simp
  have c2: "sub_closed ?s2" and o2: "out ?s2 = out ?s1"
    using w1 by (simp_all add: unsubscribe_wf [of False ?s1] fin_def)
  have e: "subscribe_source k (acts @ Cancel # acts') s = ?s2"
    using subscribe_source_closed [OF w2 c2, of k acts']
    by (simp add: subscribe_source_def)
  show "sub_closed (subscribe_source k (acts @ Cancel # acts') s)"
    and "wf False (subscribe_source k (acts @ Cancel # acts') s)"
    and "out (subscribe_source k (acts @ Cancel # acts') s) = out (subscribe_source k acts s)"
    unfolding e using w2 c2 o2 by simp_all
qed

lemma subscribe_cancelled:
  "sub_closed (subscribe h t ns (acts @ Cancel # acts'))"
  "idle (subscribe h t ns (acts @ Cancel # acts'))"
  "queue (subscribe h t ns (acts @ Cancel # acts')) = h ns"
  "shifted (subscribe h t ns (acts @ Cancel # acts')) = 1"
proof -
  let ?s = "start h t ns (acts @ Cancel # acts')"
  let ?a = "attach 0 (acts @ Cancel # acts') (shift ?s)"
  have s: "\<not> sub_closed ?s" "shifted ?s = 0"
    by (simp_all add: start_def)
  have q: "queue ?s = Src (acts @ Cancel # acts') # h ns"
    by simp
  have u: "?a = subscribe_source 0 (acts @ Cancel # acts') (new_inner 0 (shift ?s))"
    by (rule attach_unfold [OF wf_start idle_start s(1)]) (simp add: s(2))
  have nw: "wf False (new_inner 0 (shift ?s))" "newest 0 (new_inner 0 (shift ?s))"
    by (rule new_inner_wf [OF wf_start idle_start s(1)], simp add: s(2))+
  note c = subscribe_source_cancel [OF nw, of acts acts']
  have cl: "sub_closed ?a" and w: "wf False ?a"
    unfolding u using c by simp_all
  have na: "\<not> alive ?a 0"
    using idle_not_alive [OF idle_closed [OF w cl]] .
  have e: "subscribe h t ns (acts @ Cancel # acts') = ?a"
    using s q na cl by (simp add: subscribe_def subscribeNext_Src subscribeNext_closed)
  show "sub_closed (subscribe h t ns (acts @ Cancel # acts'))"
    unfolding e by (rule cl)
  show "idle (subscribe h t ns (acts @ Cancel # acts'))"
    unfolding e by (rule idle_closed [OF w cl])
  show "queue (subscribe h t ns (acts @ Cancel # acts')) = h ns"
    unfolding e using q by simp
  have "same_arrays (shift ?s) ?a"
    by simp
  then show "shifted (subscribe h t ns (acts @ Cancel # acts')) = 1"
    unfolding e by (simp add: same_arrays_def shift_def s(2))
qed

subsection \<open>The call stack\<close>

text \<open>Where \<open>inner_terminal\<close> runs the teardown.\<close>

lemma find_map_keep:
  "(\<And>x. src (f x) = src x) \<Longrightarrow>
   find (\<lambda>x. src x = k) (map (\<lambda>x. if src x = k then f x else x) xs)
     = map_option f (find (\<lambda>x. src x = k) xs)"
  by (induction xs) simp_all

lemma inner_of_upd:
  "(\<And>x. src (f x) = src x) \<Longrightarrow> inner_of (upd_inner k f s) k = map_option f (inner_of s k)"
  by (simp add: inner_of_def upd_inner_def find_map_keep)

lemma inner_terminal_call:
  "inner_terminal td k s =
     (case teardown_call s k of None \<Rightarrow> inner_terminal (\<lambda>t. t) k s | Some p \<Rightarrow> td p)"
  by (simp add: inner_terminal_def inner_unsubscribe_def teardown_call_def inner_of_upd
      split: option.splits)

lemma queue_teardown_call: "teardown_call s k = Some p \<Longrightarrow> queue p = queue s"
proof -
  have "same_arrays s (close_inner k (upd_inner k f s))" for f
    by (rule same_arrays_trans [OF same_arrays_upd_inner same_arrays_close_inner])
  then show "teardown_call s k = Some p \<Longrightarrow> queue p = queue s"
    by (auto simp: teardown_call_def queue_same_arrays split: option.splits if_splits)
qed

text \<open>A stack with room for the nested activations that \<open>subscribeNext_depth\<close>
  counts gives what \<open>subscribeNext\<close> gives, a smaller one a \<open>RangeError\<close>; and
  one nested activation for each entry of the array is always enough.\<close>

lemma subscribeNext_depth_le: "subscribeNext_depth s \<le> Suc (length (queue s))"
proof (induction s rule: subscribeNext_induct)
  case (1 s)
  show ?case
  proof (cases "sub_closed s")
    case True
    then show ?thesis by (simp add: subscribeNext_depth_closed)
  next
    case opn: False
    show ?thesis
    proof (cases "queue s")
      case Nil
      then show ?thesis using opn by (simp add: subscribeNext_depth_empty)
    next
      case (Cons e es)
      show ?thesis
      proof (cases e)
        case Invalid
        from "1.IH"(1) [OF opn Cons Invalid] show ?thesis
          using opn Cons Invalid by (simp add: subscribeNext_depth_Invalid)
      next
        case (Src acts)
        show ?thesis
        proof (cases "alive (attach (shifted s) acts (shift s)) (shifted s)")
          case True
          then show ?thesis using opn Cons Src by (simp add: subscribeNext_depth_Src)
        next
          case False
          from "1.IH"(2) [OF opn Cons Src refl refl False] show ?thesis
            using opn Cons Src False by (simp add: subscribeNext_depth_Src)
        qed
      qed
    qed
  qed
qed

lemma subscribeNext_within_depth:
  "subscribeNext_depth s \<le> Suc d \<Longrightarrow> subscribeNext_within d s = Inr (subscribeNext s)"
  "Suc d < subscribeNext_depth s \<Longrightarrow> isl (subscribeNext_within d s)"
proof -
  have "(subscribeNext_depth s \<le> Suc d \<longrightarrow> subscribeNext_within d s = Inr (subscribeNext s)) \<and>
    (Suc d < subscribeNext_depth s \<longrightarrow> isl (subscribeNext_within d s))"
  proof (induction s arbitrary: d rule: subscribeNext_induct)
    case (1 s)
    show ?case
    proof (cases "sub_closed s")
      case True
      then show ?thesis
        by (simp add: subscribeNext_depth_closed subscribeNext_within_closed subscribeNext_closed)
    next
      case opn: False
      show ?thesis
      proof (cases "queue s")
        case Nil
        then show ?thesis
          using opn
          by (simp add: subscribeNext_depth_empty subscribeNext_within_empty subscribeNext_empty)
      next
        case (Cons e es)
        show ?thesis
        proof (cases e)
          case Invalid
          note eqs = subscribeNext_depth_Invalid [OF opn Cons [unfolded Invalid]]
            subscribeNext_within_Invalid [OF opn Cons [unfolded Invalid]]
            subscribeNext_Invalid [OF opn Cons [unfolded Invalid]]
          show ?thesis
          proof (cases d)
            case 0
            have "0 < subscribeNext_depth (shift s)"
              by (subst subscribeNext_depth.simps) (simp add: Let_def split: list.splits entry.splits)
            then show ?thesis
              unfolding eqs using 0 by simp
          next
            case (Suc d')
            from "1.IH"(1) [OF opn Cons Invalid, of d'] show ?thesis
              unfolding eqs using Suc by simp
          qed
        next
          case (Src acts)
          let ?s' = "attach (shifted s) acts (shift s)"
          note eqs = subscribeNext_depth_Src [OF opn Cons [unfolded Src]]
            subscribeNext_within_Src [OF opn Cons [unfolded Src]]
            subscribeNext_Src [OF opn Cons [unfolded Src]]
          show ?thesis
          proof (cases "alive ?s' (shifted s)")
            case True
            then show ?thesis
              unfolding eqs by simp
          next
            case False
            show ?thesis
            proof (cases d)
              case 0
              have "0 < subscribeNext_depth ?s'"
                by (subst subscribeNext_depth.simps) (simp add: Let_def split: list.splits entry.splits)
              then show ?thesis
                unfolding eqs using 0 False by simp
            next
              case (Suc d')
              from "1.IH"(2) [OF opn Cons Src refl refl False, of d'] show ?thesis
                unfolding eqs using Suc False by simp
            qed
          qed
        qed
      qed
    qed
  qed
  then show "subscribeNext_depth s \<le> Suc d \<Longrightarrow> subscribeNext_within d s = Inr (subscribeNext s)"
    "Suc d < subscribeNext_depth s \<Longrightarrow> isl (subscribeNext_within d s)"
    by simp_all
qed

lemma subscribeNext_within_enough:
  "length (queue s) \<le> d \<Longrightarrow> subscribeNext_within d s = Inr (subscribeNext s)"
  using subscribeNext_depth_le [of s] by (intro subscribeNext_within_depth(1)) simp

lemma subscribeNext_within_Inr:
  "subscribeNext_within d s = Inr t \<Longrightarrow> t = subscribeNext s"
  using subscribeNext_within_depth [where s = s and d = d] by (cases "subscribeNext_depth s \<le> Suc d") auto

text \<open>A run that is not cut short by a \<open>RangeError\<close> is the run of \<open>run\<close>, and no run
  is cut short on a stack with room for as many nested activations as the array has
  entries.\<close>

lemma terminal_within_Inr:
  "terminal_within d k s = Inr t \<Longrightarrow> t = inner_terminal subscribeNext k s"
  by (subst inner_terminal_call)
    (auto simp: terminal_within_def dest: subscribeNext_within_Inr split: option.splits)

lemma step_within_Inr: "step_within d s ev = Inr t \<Longrightarrow> t = step s ev"
proof (cases ev)
  case (Emit k n)
  then show "step_within d s ev = Inr t \<Longrightarrow> t = step s ev"
    by (cases n) (auto dest: terminal_within_Inr)
next
  case Unsubscribe
  then show "step_within d s ev = Inr t \<Longrightarrow> t = step s ev"
    by (auto simp: unsubscribe_subscribeNext)
qed

lemma run_within_Inr: "run_within d s evs = Inr t \<Longrightarrow> t = run s evs"
proof (induction evs arbitrary: s)
  case Nil
  then show ?case by (simp add: run_def)
next
  case (Cons ev evs)
  then show ?case
    by (auto simp: run_Cons dest: step_within_Inr split: sum.splits)
qed

lemma session_within_Inr:
  "session_within d h t ns source evs = Inr s \<Longrightarrow> s = run (subscribe h t ns source) evs"
  by (auto simp: session_within_def subscribe_def
      dest: subscribeNext_within_Inr run_within_Inr split: sum.splits)

lemma terminal_within_enough:
  "length (queue s) \<le> d \<Longrightarrow> terminal_within d k s = Inr (inner_terminal subscribeNext k s)"
  by (subst inner_terminal_call)
    (auto simp: terminal_within_def queue_teardown_call subscribeNext_within_enough
      split: option.splits)

lemma step_within_enough: "length (queue s) \<le> d \<Longrightarrow> step_within d s ev = Inr (step s ev)"
proof (cases ev)
  case (Emit k n)
  then show "length (queue s) \<le> d \<Longrightarrow> step_within d s ev = Inr (step s ev)"
    by (cases n) (auto simp: terminal_within_enough)
next
  case Unsubscribe
  then show "length (queue s) \<le> d \<Longrightarrow> step_within d s ev = Inr (step s ev)"
    by (auto simp: unsubscribe_subscribeNext)
qed

lemma queue_step_le: "wf True s \<Longrightarrow> length (queue (step s ev)) \<le> length (queue s)"
  using queue_moves [OF moves_step [of s True ev]] by auto

lemma run_within_enough:
  "wf True s \<Longrightarrow> length (queue s) \<le> d \<Longrightarrow> run_within d s evs = Inr (run s evs)"
proof (induction evs arbitrary: s)
  case Nil
  then show ?case by (simp add: run_def)
next
  case (Cons ev evs)
  have "run_within d (step s ev) evs = Inr (run (step s ev) evs)"
    using Cons.prems queue_step_le [OF Cons.prems(1), of ev]
    by (intro Cons.IH step_wf) simp_all
  then show ?case
    using Cons.prems by (simp add: step_within_enough run_Cons)
qed

lemma session_within_enough:
  assumes "length (h ns) < d"
  shows "session_within d h t ns source evs = Inr (run (subscribe h t ns source) evs)"
proof -
  have a: "subscribeNext_within d (start h t ns source) = Inr (subscribe h t ns source)"
    unfolding subscribe_def using assms by (intro subscribeNext_within_enough) simp
  have "\<exists>n. queue (run (subscribe h t ns source) []) = drop n (queue (start h t ns source))"
    by (rule queue_moves [OF moves_reach [of True]]) simp
  then have "length (queue (subscribe h t ns source)) \<le> d"
    using assms by (auto simp: run_def)
  from run_within_enough [OF wf_subscribe this] a show ?thesis
    by (simp add: session_within_def)
qed

text \<open>Between two events the source that is open is the one shifted out last.\<close>

lemma front_open_moves: "moves c s t \<Longrightarrow> front_open s \<Longrightarrow> front_open t"
proof (induction rule: moves.induct)
  case start
  then show ?case .
next
  case (forward t k v)
  then show ?case by (auto simp: front_open_def split: list.splits)
next
  case (finalize t)
  then show ?case by (auto simp: front_open_def fin_def split: list.splits)
next
  case (cancel t)
  then show ?case by (auto simp: front_open_def fin_def split: list.splits)
next
  case (complete t)
  then show ?case by (auto simp: front_open_def split: list.splits)
next
  case (skip t es)
  then show ?case by (auto simp: front_open_def shift_def idle_def split: list.splits)
next
  case (create t acts es)
  have "\<not> sub_closed (shift t)"
    using create.hyps by (simp add: shift_def)
  from new_inner_open [OF this, of "shifted t"] obtain ts where
    "new_inner (shifted t) (shift t) =
       (shift t)\<lparr>inners := \<lparr>src = shifted t, i_closed = False, i_stopped = False, hooked = False\<rparr>
           # inners (shift t),
         peak_alive := max (peak_alive (shift t)) (Suc (n_alive (shift t))), sub_teardowns := ts\<rparr>"
    by blast
  then show ?case
    using create.hyps(2) by (simp add: front_open_def shift_def idle_def)
next
  case (hook t k)
  then show ?case
    by (auto simp: front_open_def upd_inner_def list_all_iff split: list.splits)
qed

lemma shifted_moves: "moves c s t \<Longrightarrow> shifted s \<le> shifted t"
proof (induction rule: moves.induct)
  case start
  show ?case by simp
next
  case (forward t k v)
  then show ?case by simp
next
  case (finalize t)
  then show ?case by (simp add: fin_def)
next
  case (cancel t)
  then show ?case by (simp add: fin_def)
next
  case (complete t)
  then show ?case by simp
next
  case (skip t es)
  then show ?case by (simp add: shift_def)
next
  case (create t acts es)
  have "shifted (new_inner (shifted t) (shift t)) = shifted (shift t)"
    using same_arrays_new_inner [of "shift t" "shifted t"] by (simp add: same_arrays_def)
  with create show ?case by (simp add: shift_def)
next
  case (hook t k)
  then show ?case by (simp add: upd_inner_def)
qed

lemma front_open_alive:
  assumes "front_open s" "\<not> idle s"
  shows "alive s (shifted s - 1)"
  using assms
  by (cases "inners s") (auto simp: front_open_def idle_def alive_def inner_of_def)

lemma shifted_subscribeNext:
  assumes "wf h s" "idle s" "\<not> sub_closed s" "queue s \<noteq> []"
  shows "shifted s < shifted (subscribeNext s)"
proof -
  from assms(4) obtain e es where q: "queue s = e # es"
    by (cases "queue s") simp_all
  show ?thesis
  proof (cases e)
    case Invalid
    have "moves True (shift s) (subscribeNext (shift s))"
      using assms(2) by (intro moves_subscribeNext [OF wf_shift [OF assms(1)]]) simp_all
    from shifted_moves [OF this] show ?thesis
      unfolding subscribeNext_Invalid [OF assms(3) q [unfolded Invalid]]
      by (simp add: shift_def)
  next
    case (Src acts)
    let ?s' = "attach (shifted s) acts (shift s)"
    have sh: "shifted ?s' = Suc (shifted s)"
      using same_arrays_attach [of "shift s" "shifted s" acts]
      by (simp add: same_arrays_def shift_def)
    note a = attach_wf [OF assms(1,2,3) refl, where acts = acts]
    show ?thesis
    proof (cases "alive ?s' (shifted s)")
      case True
      then show ?thesis
        unfolding subscribeNext_Src [OF assms(3) q [unfolded Src]]
        using sh by (simp add: upd_inner_def)
    next
      case False
      have "moves True ?s' (subscribeNext ?s')"
        by (rule moves_subscribeNext [OF a(1) not_alive_idle [OF a False]]) simp
      from shifted_moves [OF this] show ?thesis
        unfolding subscribeNext_Src [OF assms(3) q [unfolded Src]]
        using sh False by simp
    qed
  qed
qed

lemma progress:
  fixes s :: "('a, 'e) state"
  assumes "s = run (subscribe h t ns source) evs"
  shows "consumed (Src source # h ns) s" and "0 < shifted s" and "0 \<in> set (map src (inners s))"
    and "\<not> sub_closed s \<Longrightarrow> alive s (shifted s - 1)"
    and "Unsubscribe \<notin> set evs \<Longrightarrow> list_all cancel_free (Src source # h ns) \<Longrightarrow> sub_closed s \<Longrightarrow>
      queue s = [] \<and> shifted s = Suc (length (h ns))"
proof -
  have "consumed (Src source # h ns) (start h t ns source)"
    by (simp add: consumed_def start_def queue_def)
  with consumed_moves [OF moves_reach [of True]] show c: "consumed (Src source # h ns) s"
    unfolding assms by simp
  have "shifted (subscribe h t ns source) \<le> shifted s"
    unfolding assms by (rule shifted_moves [OF moves_run [OF wf_subscribe, of True]]) simp
  moreover have "shifted (start h t ns source) < shifted (subscribe h t ns source)"
    unfolding subscribe_def
    by (rule shifted_subscribeNext [OF wf_start [of False] idle_start])
       (simp_all add: start_def queue_def)
  ultimately show p: "0 < shifted s"
    by simp
  have "0 \<in> set (filter (\<lambda>i. (Src source # h ns) ! i \<noteq> Invalid) [0..<shifted s])"
    using p by simp
  then have "0 \<in> set (rev (map src (inners s)))"
    using c unfolding consumed_def by simp
  then show "0 \<in> set (map src (inners s))"
    by simp
  have f: "front_open s"
    unfolding assms
    by (rule front_open_moves [OF moves_reach [of True]]) (simp_all add: front_open_def start_def)
  show "alive s (shifted s - 1)" if "\<not> sub_closed s"
    using that reach_settles [of h t ns source evs] front_open_alive [OF f]
    unfolding assms by blast
  show "queue s = [] \<and> shifted s = Suc (length (h ns))"
    if nc: "Unsubscribe \<notin> set evs" "list_all cancel_free (Src source # h ns)" and cl: "sub_closed s"
  proof -
    have "sub_closed s \<longrightarrow> Complete \<in> set (out s)"
      unfolding assms using nc by (intro closed_by_complete [OF moves_reach]) (simp_all add: start_def)
    with cl have m: "Complete \<in> set (out s)"
      by simp
    have "out_ok s"
      unfolding assms by (rule reach_out_ok)
    then have q: "queue s = []"
      using m
      by (cases rule: out_ok_cases) (auto dest: values_no_terminal(2))
    with c show ?thesis
      by (simp add: consumed_def)
  qed
qed

text \<open>Sources that are finished when their subscribe call returns use one nested
  activation each: on a stack with room for \<open>d\<close> of them, \<open>d + 1\<close> entries are shifted out
  and the \<open>RangeError\<close> leaves the rest in the array, the subscriber still open.\<close>

lemma overflow:
  "wf h s \<Longrightarrow> idle s \<Longrightarrow> \<not> sub_closed s \<Longrightarrow> list_all immediate (queue s) \<Longrightarrow>
   d < length (queue s) \<Longrightarrow>
   isl (subscribeNext_within d s) \<and>
   queue (left_behind (projl (subscribeNext_within d s))) = drop (Suc d) (queue s) \<and>
   out (left_behind (projl (subscribeNext_within d s)))
     = out s @ map Next (concat (map entry_values (take (Suc d) (queue s)))) \<and>
   \<not> sub_closed (left_behind (projl (subscribeNext_within d s)))"
proof (induction s arbitrary: d h rule: subscribeNext_induct)
  case (1 s)
  note opn = "1.prems"(3)
  show ?case
  proof (cases "queue s")
    case Nil
    with "1.prems"(5) show ?thesis by simp
  next
    case (Cons e es)
    show ?thesis
    proof (cases e)
      case Invalid
      note eq = subscribeNext_within_Invalid [OF opn Cons [unfolded Invalid]]
      have nc: "\<not> sub_closed (shift s)"
        using opn by (simp add: shift_def)
      show ?thesis
      proof (cases d)
        case 0
        then show ?thesis
          unfolding eq using nc Cons Invalid by (simp add: out_shift)
      next
        case (Suc d')
        have "isl (subscribeNext_within d' (shift s)) \<and>
          queue (left_behind (projl (subscribeNext_within d' (shift s)))) = drop (Suc d') (queue (shift s)) \<and>
          out (left_behind (projl (subscribeNext_within d' (shift s))))
            = out (shift s) @ map Next (concat (map entry_values (take (Suc d') (queue (shift s))))) \<and>
          \<not> sub_closed (left_behind (projl (subscribeNext_within d' (shift s))))"
          using "1.prems"(2,4,5) Cons Suc nc
          by (intro "1.IH"(1) [OF opn Cons Invalid wf_shift [OF "1.prems"(1)]]) simp_all
        then show ?thesis
          unfolding eq using Suc Cons Invalid by (simp add: out_shift)
      qed
    next
      case (Src acts)
      let ?s' = "attach (shifted s) acts (shift s)"
      note eq = subscribeNext_within_Src [OF opn Cons [unfolded Src]]
      have im: "ends acts" "Cancel \<notin> set acts" "list_all immediate es"
        using "1.prems"(4) Cons Src by simp_all
      note e = attach_ends [OF "1.prems"(1,2) opn im(1,2)]
      note a = attach_wf [OF "1.prems"(1,2) opn refl, of acts]
      show ?thesis
      proof (cases d)
        case 0
        then show ?thesis
          unfolding eq using e Cons Src by simp
      next
        case (Suc d')
        have "isl (subscribeNext_within d' ?s') \<and>
          queue (left_behind (projl (subscribeNext_within d' ?s'))) = drop (Suc d') (queue ?s') \<and>
          out (left_behind (projl (subscribeNext_within d' ?s')))
            = out ?s' @ map Next (concat (map entry_values (take (Suc d') (queue ?s')))) \<and>
          \<not> sub_closed (left_behind (projl (subscribeNext_within d' ?s')))"
          using "1.prems"(5) Cons Suc im(3) e(3)
          by (intro "1.IH"(2) [OF opn Cons Src refl refl e(2) a(1) not_alive_idle [OF a e(2)]])
             simp_all
        then show ?thesis
          unfolding eq using Suc Cons Src e(1,2) by simp
      qed
    qed
  qed
qed

lemma session_overflow:
  assumes "list_all immediate (Src source # h ns)" "d \<le> length (h ns)"
  shows "isl (session_within d h t ns source evs)"
    and "queue (left_behind (projl (session_within d h t ns source evs))) = drop d (h ns)"
    and "out (left_behind (projl (session_within d h t ns source evs)))
      = map Next (concat (map entry_values (take (Suc d) (Src source # h ns))))"
    and "\<not> sub_closed (left_behind (projl (session_within d h t ns source evs)))"
proof -
  let ?r = "subscribeNext_within d (start h t ns source)"
  have st: "\<not> sub_closed (start h t ns source)" "out (start h t ns source) = []"
    by (simp_all add: start_def)
  have o: "isl ?r \<and> queue (left_behind (projl ?r)) = drop (Suc d) (Src source # h ns) \<and>
     out (left_behind (projl ?r)) =
       map Next (concat (map entry_values (take (Suc d) (Src source # h ns)))) \<and>
     \<not> sub_closed (left_behind (projl ?r))"
    using overflow [OF wf_start [of False] idle_start st(1), where d = d] assms st(2)
    by simp
  then obtain f where f: "?r = Inl f"
    by (cases ?r) simp_all
  then have s: "session_within d h t ns source evs = Inl f"
    by (simp add: session_within_def)
  from o show "isl (session_within d h t ns source evs)"
    and "queue (left_behind (projl (session_within d h t ns source evs))) = drop d (h ns)"
    and "out (left_behind (projl (session_within d h t ns source evs)))
      = map Next (concat (map entry_values (take (Suc d) (Src source # h ns))))"
    and "\<not> sub_closed (left_behind (projl (session_within d h t ns source evs)))"
    unfolding s f by simp_all
qed

lemma operator_overflow:
  assumes "list_all immediate (Src source # fs)" "d \<le> length fs"
  shows "isl (onErrorResumeNext_within d fs source evs)"
    and "queue (left_behind (projl (onErrorResumeNext_within d fs source evs))) = drop d fs"
    and "out (left_behind (projl (onErrorResumeNext_within d fs source evs)))
      = map Next (concat (map entry_values (take (Suc d) (Src source # fs))))"
    and "\<not> sub_closed (left_behind (projl (onErrorResumeNext_within d fs source evs)))"
  using session_overflow [of source "(\<lambda>_. [])(0 := fs)" 0 d 1 evs] assms
  unfolding onErrorResumeNext_within_def by simp_all

lemma operator_enough:
  "length fs < d \<Longrightarrow>
   onErrorResumeNext_within d fs source evs = Inr (run (onErrorResumeNext fs source) evs)"
  using session_within_enough [of "(\<lambda>_. [])(0 := fs)" 0 d 1 source evs]
  by (simp add: onErrorResumeNext_within_def onErrorResumeNext_def)

text \<open>A terminal notification of the open source: its inner subscriber finalizes and
  \<open>subscribeNext\<close> takes the next entry, or completes the subscriber on an empty array.\<close>

lemma terminal_advances:
  assumes "wf True s" "alive s k" "\<not> is_next n"
  shows "step s (Emit k n) = subscribeNext (fin s)"
    and "queue s = [] \<Longrightarrow> sub_closed (step s (Emit k n)) \<and> out (step s (Emit k n)) = out s @ [Complete]"
    and "queue s \<noteq> [] \<Longrightarrow> shifted s < shifted (step s (Emit k n))"
proof -
  show e: "step s (Emit k n) = subscribeNext (fin s)"
    using assms by (cases n) (simp_all add: inner_terminal_wf [OF assms(1)])
  obtain x xs where x: "inners s = x # xs" "src x = k" "\<not> i_closed x"
    using assms(1,2) by (auto simp: alive_wf)
  then have opn: "\<not> sub_closed (fin s)"
    using assms(1) by (auto simp: wf_def fin_def)
  note f = wf_fin [OF assms(1), of True]
  show "sub_closed (step s (Emit k n)) \<and> out (step s (Emit k n)) = out s @ [Complete]"
    if "queue s = []"
    unfolding e using that f opn
    by (simp add: subscribeNext_empty sub_complete_idle [of True])
  show "shifted s < shifted (step s (Emit k n))" if "queue s \<noteq> []"
  proof -
    have "shifted (fin s) < shifted (subscribeNext (fin s))"
      using that by (intro shifted_subscribeNext [OF conjunct1 [OF f] conjunct2 [OF f] opn]) simp
    then show ?thesis
      unfolding e by (simp add: fin_def)
  qed
qed

lemma erroring_chain:
  "list_all immediate (Src [Notify (Error e0)] # map (\<lambda>e. Src [Notify (Error e)]) es)"
  "concat (map entry_values (map (\<lambda>e. Src [Notify (Error e)]) es)) = []"
  "concat (map entry_values (take n (map (\<lambda>e. Src [Notify (Error e)]) es))) = []"
  by (induction es) (auto dest!: in_set_takeD)

text \<open>Sources that are finished when their subscribe call returns, on a stack with
  room for \<open>d\<close> nested activations: they are drained when \<open>d\<close> exceeds the number of
  fallbacks, and otherwise a \<open>RangeError\<close> is raised with the sink having received the
  values of the first \<open>d + 1\<close> sources and the array still holding the fallbacks from
  position \<open>d\<close> on.\<close>

lemma immediate_within:
  assumes "list_all immediate (Src source # fs)"
  shows "length fs < d \<Longrightarrow>
      (case onErrorResumeNext_within d fs source [] of
         Inl f \<Rightarrow> False
       | Inr s \<Rightarrow> out s = map Next (concat (map entry_values (Src source # fs))) @ [Complete] \<and>
           sub_closed s \<and> queue s = [])"
    and "d \<le> length fs \<Longrightarrow>
      (case onErrorResumeNext_within d fs source [] of
         Inl f \<Rightarrow> out (left_behind f)
             = map Next (concat (map entry_values (take (Suc d) (Src source # fs)))) \<and>
           queue (left_behind f) = drop d fs \<and> \<not> sub_closed (left_behind f)
       | Inr s \<Rightarrow> False)"
proof -
  show "(case onErrorResumeNext_within d fs source [] of
         Inl f \<Rightarrow> False
       | Inr s \<Rightarrow> out s = map Next (concat (map entry_values (Src source # fs))) @ [Complete] \<and>
           sub_closed s \<and> queue s = [])" if "length fs < d"
    using drain_operator(1,2,3) [OF assms] operator_enough [OF that, of source "[]"]
    by (simp add: run_def)
  show "(case onErrorResumeNext_within d fs source [] of
         Inl f \<Rightarrow> out (left_behind f)
             = map Next (concat (map entry_values (take (Suc d) (Src source # fs)))) \<and>
           queue (left_behind f) = drop d fs \<and> \<not> sub_closed (left_behind f)
       | Inr s \<Rightarrow> False)" if "d \<le> length fs"
    using operator_overflow [OF assms that, of "[]"]
    by (cases "onErrorResumeNext_within d fs source []") simp_all
qed

lemmas within_defs = onErrorResumeNext_within_def session_within_def subscribeNext_within_closed
  subscribeNext_within_empty subscribeNext_within_Invalid subscribeNext_within_Src
  terminal_within_def teardown_call_def

lemma reach_front_open: "front_open (run (subscribe h t ns source) evs)"
  by (rule front_open_moves [OF moves_reach [of True]]) (simp_all add: front_open_def start_def)

lemma terminal_progress:
  fixes s :: "('a, 'e) state"
  assumes "s = run (subscribe h t ns source) evs"
    and "s' = run (subscribe h t ns source) (evs @ [Emit k n])"
    and "alive s k" "\<not> is_next n"
  shows "\<not> alive s' k"
    and "if queue s = [] then sub_closed s' \<and> out s' = out s @ [Complete]
         else shifted s < shifted s'"
proof -
  have w: "wf True s"
    unfolding assms(1) by (rule reach_wf)
  have w': "wf True s'"
    unfolding assms(2) by (rule reach_wf)
  have st: "s' = step s (Emit k n)"
    unfolding assms(1,2) by (simp add: run_def)
  note t = terminal_advances(2,3) [OF w assms(3,4), folded st]
  from t show b: "if queue s = [] then sub_closed s' \<and> out s' = out s @ [Complete]
         else shifted s < shifted s'"
    by simp
  have k: "shifted s = Suc k"
    using assms(3) w reach_front_open [of h t ns source evs, folded assms(1)]
    by (auto simp: alive_wf front_open_def wf_def)
  show "\<not> alive s' k"
  proof (cases "sub_closed s'")
    case True
    from idle_not_alive [OF idle_closed [OF w' True]] show ?thesis .
  next
    case False
    then have "queue s \<noteq> []"
      using b by (cases "queue s = []") simp_all
    with b have l: "shifted s < shifted s'"
      by simp
    have "\<not> idle s'"
      using False reach_settles [of h t ns source "evs @ [Emit k n]", folded assms(2)] by blast
    from front_open_alive [OF reach_front_open [of h t ns source "evs @ [Emit k n]", folded assms(2)] this]
    have "alive s' (shifted s' - 1)" .
    then show ?thesis
      using w' k l by (auto simp: alive_wf)
  qed
qed

section \<open>The claims\<close>

text \<open>
  Claim C1, as the code has it. In every run that no \<open>RangeError\<close> cuts short the sink
  has received no \<open>error\<close> and at most one \<open>complete\<close>; a \<open>complete\<close> is the last
  notification it receives and is only delivered once the array is empty and every
  inner subscriber has finalized. When the consumer never unsubscribes and every source
  subscribed so far has finalized, the sink has received exactly one \<open>complete\<close>. No
  run is cut short on a stack with room for as many nested activations of
  \<open>subscribeNext\<close> as there are fallbacks. Sources that each error at once, with no
  value, give the output \<open>complete\<close> alone when the stack has room for one nested
  activation for each of them; on a smaller stack the call of line 111 ends in a
  \<open>RangeError\<close> with nothing delivered and the fallbacks from position \<open>d\<close> on still in
  the array.
\<close>

theorem complete_at_most_once:
  "(session_within d h t ns source evs = Inr s \<longrightarrow>
      (\<forall>e. Error e \<notin> set (out s)) \<and>
      length (filter (\<lambda>n. n = Complete) (out s)) \<le> 1 \<and>
      (Complete \<in> set (out s) \<longrightarrow> last (out s) = Complete \<and> queue s = [] \<and> idle s) \<and>
      (Unsubscribe \<notin> set evs \<and> list_all cancel_free (Src source # h ns) \<and> idle s \<longrightarrow>
         length (filter (\<lambda>n. n = Complete) (out s)) = 1)) \<and>
   (length (h ns) < d \<longrightarrow>
      session_within d h t ns source evs = Inr (run (subscribe h t ns source) evs)) \<and>
   (length es < d \<longrightarrow>
      (case onErrorResumeNext_within d (map (\<lambda>e. Src [Notify (Error e)]) es)
           ([Notify (Error e0)] :: ('a, 'e) sact list) [] of
         Inl f \<Rightarrow> False
       | Inr s' \<Rightarrow> out s' = [Complete])) \<and>
   (d \<le> length es \<longrightarrow>
      (case onErrorResumeNext_within d (map (\<lambda>e. Src [Notify (Error e)]) es)
           ([Notify (Error e0)] :: ('a, 'e) sact list) [] of
         Inl f \<Rightarrow> out (left_behind f) = [] \<and>
           queue (left_behind f) = drop d (map (\<lambda>e. Src [Notify (Error e)]) es)
       | Inr s' \<Rightarrow> False))"
proof -
  let ?fs = "map (\<lambda>e. Src [Notify (Error e)]) es :: ('a, 'e) entry list"
  have a: "(\<forall>e. Error e \<notin> set (out s)) \<and>
      length (filter (\<lambda>n. n = Complete) (out s)) \<le> 1 \<and>
      (Complete \<in> set (out s) \<longrightarrow> last (out s) = Complete \<and> queue s = [] \<and> idle s) \<and>
      (Unsubscribe \<notin> set evs \<and> list_all cancel_free (Src source # h ns) \<and> idle s \<longrightarrow>
         length (filter (\<lambda>n. n = Complete) (out s)) = 1)"
    if "session_within d h t ns source evs = Inr s"
  proof -
    have s: "s = run (subscribe h t ns source) evs"
      using that by (rule session_within_Inr)
    have ok: "out_ok s"
      unfolding s by (rule reach_out_ok)
    have a1: "\<forall>e. Error e \<notin> set (out s)"
      using ok by (cases rule: out_ok_cases) (auto dest: values_no_terminal(1))
    have a2: "length (filter (\<lambda>n. n = Complete) (out s)) \<le> 1"
      using ok by (cases rule: out_ok_cases) (auto simp: values_no_terminal(3))
    have a3: "last (out s) = Complete \<and> queue s = [] \<and> idle s" if "Complete \<in> set (out s)"
      using ok that by (cases rule: out_ok_cases) (auto dest: values_no_terminal(2))
    have a4: "length (filter (\<lambda>n. n = Complete) (out s)) = 1"
      if nc: "Unsubscribe \<notin> set evs" "list_all cancel_free (Src source # h ns)" and i: "idle s"
    proof -
      have "sub_closed s"
        using reach_settles [of h t ns source evs] i unfolding s by blast
      moreover have "sub_closed s \<longrightarrow> Complete \<in> set (out s)"
        unfolding s using nc by (intro closed_by_complete [OF moves_reach]) (simp_all add: start_def)
      ultimately have "Complete \<in> set (out s)"
        by simp
      with ok show ?thesis
        by (cases rule: out_ok_cases) (auto simp: values_no_terminal(2,3))
    qed
    from a1 a2 a3 a4 show ?thesis
      by blast
  qed
  have b: "session_within d h t ns source evs = Inr (run (subscribe h t ns source) evs)"
    if "length (h ns) < d"
    using that by (rule session_within_enough)
  have c: "(case onErrorResumeNext_within d ?fs [Notify (Error e0)] [] of
         Inl f \<Rightarrow> False | Inr s' \<Rightarrow> out s' = [Complete])"
    if "length es < d"
  proof -
    have "case onErrorResumeNext_within d ?fs [Notify (Error e0)] [] of
        Inl f \<Rightarrow> False
      | Inr s \<Rightarrow> out s = map Next (concat (map entry_values (Src [Notify (Error e0)] # ?fs))) @ [Complete] \<and>
          sub_closed s \<and> queue s = []"
      using that by (intro immediate_within(1) [OF erroring_chain(1)]) simp
    then show ?thesis
      by (auto simp: erroring_chain(2) simp del: map_map split: sum.splits)
  qed
  have e: "(case onErrorResumeNext_within d ?fs [Notify (Error e0)] [] of
         Inl f \<Rightarrow> out (left_behind f) = [] \<and> queue (left_behind f) = drop d ?fs
       | Inr s' \<Rightarrow> False)"
    if "d \<le> length es"
  proof -
    have "case onErrorResumeNext_within d ?fs [Notify (Error e0)] [] of
        Inl f \<Rightarrow> out (left_behind f)
            = map Next (concat (map entry_values (take (Suc d) (Src [Notify (Error e0)] # ?fs)))) \<and>
          queue (left_behind f) = drop d ?fs \<and> \<not> sub_closed (left_behind f)
      | Inr s \<Rightarrow> False"
      using that by (intro immediate_within(2) [OF erroring_chain(1)]) simp
    then show ?thesis
      by (auto simp: erroring_chain(3) simp del: map_map split: sum.splits)
  qed
  from a b c e show ?thesis
    by blast
qed

theorem complete_at_most_once_witness:
  "onErrorResumeNext_within 3 [Src [Notify (Next 2), Notify (Error 0)], Invalid] [Notify (Next (1::nat))]
       [Emit 0 (Next 5), Emit 0 (Error (0::nat))]
     = Inr (run (onErrorResumeNext [Src [Notify (Next 2), Notify (Error 0)], Invalid] [Notify (Next 1)])
         [Emit 0 (Next 5), Emit 0 (Error 0)]) \<and>
   Unsubscribe \<notin> set [Emit 0 (Next (5::nat)), Emit 0 (Error (0::nat))] \<and>
   list_all cancel_free [Src [Notify (Next 1)], Src [Notify (Next 2), Notify (Error 0)], Invalid] \<and>
   idle (run (onErrorResumeNext [Src [Notify (Next 2), Notify (Error 0)], Invalid] [Notify (Next 1)])
     [Emit 0 (Next 5), Emit 0 (Error 0)]) \<and>
   out (run (onErrorResumeNext [Src [Notify (Next 2), Notify (Error 0)], Invalid] [Notify (Next 1)])
     [Emit 0 (Next 5), Emit 0 (Error 0)]) = [Next 1, Next 5, Next 2, Complete] \<and>
   queue (run (onErrorResumeNext [Src [Notify (Next 2), Notify (Error 0)], Invalid] [Notify (Next 1)])
     [Emit 0 (Next 5), Emit 0 (Error 0)]) = [] \<and>
   (case onErrorResumeNext_within 3 [Src [Notify (Error (7::nat))]] [Notify (Error 0)] [] of
      Inl f \<Rightarrow> False
    | Inr s' \<Rightarrow> out s' = [Complete :: (nat, nat) notif]) \<and>
   (case onErrorResumeNext_within 1 [Src [Notify (Error (7::nat))], Src [Notify (Error 8)]]
        [Notify (Error 0)] [] of
      Inl f \<Rightarrow> out (left_behind f) = ([] :: (nat, nat) notif list) \<and>
        queue (left_behind f) = [Src [Notify (Error 8)]]
    | Inr s' \<Rightarrow> False)"
  using complete_at_most_once [of 3 "(\<lambda>_. [])(0 := [Src [Notify (Next 2), Notify (Error 0)], Invalid])"
      1 0 "[Notify (Next (1::nat))]" "[Emit 0 (Next 5), Emit 0 (Error (0::nat))]"
      "run (onErrorResumeNext [Src [Notify (Next 2), Notify (Error 0)], Invalid] [Notify (Next 1)])
         [Emit 0 (Next 5), Emit 0 (Error 0)]" "[7]" 0]
    complete_at_most_once [of 1 "(\<lambda>_. [])(0 := [])" 1 0 "[] :: (nat, nat) sact list" "[]"
      "onErrorResumeNext [] []" "[7, 8]" 0]
  by (simp add: eval_defs within_defs cancel_free_def)

theorem complete_exactly_once_counterexample:
  "out (run (onErrorResumeNext [Src [Notify (Next 3), Notify Complete]] [Notify (Next (1::nat))])
     [Emit 0 (Next 2), Unsubscribe]) = [Next 1, Next 2 :: (nat, nat) notif] \<and>
   sub_closed (run (onErrorResumeNext [Src [Notify (Next 3), Notify Complete]] [Notify (Next (1::nat))])
     [Emit 0 (Next 2), Unsubscribe :: (nat, nat) event]) \<and>
   out (run (onErrorResumeNext [] [Notify (Next (1::nat))]) [Emit 0 (Next 2)])
     = [Next 1, Next 2 :: (nat, nat) notif] \<and>
   isl (onErrorResumeNext_within 10000 (map (\<lambda>e. Src [Notify (Error e)]) (replicate 100000 (0::nat)))
     ([Notify (Error 0)] :: (nat, nat) sact list) []) \<and>
   out (left_behind (projl (onErrorResumeNext_within 10000
     (map (\<lambda>e. Src [Notify (Error e)]) (replicate 100000 (0::nat)))
     ([Notify (Error 0)] :: (nat, nat) sact list) []))) = []"
proof -
  have "case onErrorResumeNext_within 10000
      (map (\<lambda>e. Src [Notify (Error e)]) (replicate 100000 (0::nat)))
      ([Notify (Error 0)] :: (nat, nat) sact list) [] of
    Inl f \<Rightarrow> out (left_behind f) = map Next (concat (map entry_values (take (Suc 10000)
        (Src [Notify (Error 0)] # map (\<lambda>e. Src [Notify (Error e)]) (replicate 100000 (0::nat)))))) \<and>
      queue (left_behind f) = drop 10000 (map (\<lambda>e. Src [Notify (Error e)]) (replicate 100000 (0::nat))) \<and>
      \<not> sub_closed (left_behind f)
    | Inr s \<Rightarrow> False"
    by (rule immediate_within(2) [OF erroring_chain(1)]) simp
  then have "isl (onErrorResumeNext_within 10000
      (map (\<lambda>e. Src [Notify (Error e)]) (replicate 100000 (0::nat)))
      ([Notify (Error 0)] :: (nat, nat) sact list) []) \<and>
    out (left_behind (projl (onErrorResumeNext_within 10000
      (map (\<lambda>e. Src [Notify (Error e)]) (replicate 100000 (0::nat)))
      ([Notify (Error 0)] :: (nat, nat) sact list) []))) = []"
    by (auto simp: erroring_chain(3) simp del: map_map split: sum.splits)
  then show ?thesis
    by (simp add: eval_defs)
qed

text \<open>
  Claim C2, as the code has it. Line 86 builds the array \<open>[source, ...nextSources]\<close>,
  the primary source first and the fallbacks in the order given. In every run that no
  \<open>RangeError\<close> cuts short, the array holds what is left of it after its first \<open>shifted\<close>
  entries, and the inner subscribers created so far, oldest first, belong to exactly the
  entries among those first \<open>shifted\<close> that \<open>innerFrom\<close> accepts, in increasing position:
  every entry is taken from the front, once, and subscribed once if it can be subscribed
  at all. The primary source has been subscribed; while the subscriber is open, the
  entry shifted out last is the one that is subscribed and open; a terminal notification
  of the open source finalizes its inner subscriber and shifts the next entry out of the
  array, or completes the subscriber when the array is empty; and unless the consumer
  unsubscribes, the subscriber only closes with every entry shifted out. No run is cut
  short on a stack with room for as many nested activations of \<open>subscribeNext\<close> as there
  are fallbacks; but sources that are finished when their subscribe call returns nest
  one activation each, and on a stack with room for \<open>d\<close> nested activations, no more
  than there are fallbacks, the \<open>RangeError\<close> leaves the fallbacks from position \<open>d\<close>
  on in the array, never tried, with the subscriber open.
\<close>

theorem sources_consumed_in_order:
  "queue (start h t ns source) = Src source # h ns \<and>
   (session_within d h t ns source evs = Inr s \<longrightarrow>
      consumed (Src source # h ns) s \<and> 0 < shifted s \<and> 0 \<in> set (map src (inners s)) \<and>
      (\<not> sub_closed s \<longrightarrow> alive s (shifted s - 1)) \<and>
      (Unsubscribe \<notin> set evs \<and> list_all cancel_free (Src source # h ns) \<and> sub_closed s \<longrightarrow>
         queue s = [] \<and> shifted s = Suc (length (h ns))) \<and>
      (session_within d h t ns source (evs @ [Emit k n]) = Inr s' \<and> alive s k \<and> \<not> is_next n \<longrightarrow>
         \<not> alive s' k \<and>
         (if queue s = [] then sub_closed s' \<and> out s' = out s @ [Complete]
          else shifted s < shifted s'))) \<and>
   (length (h ns) < d \<longrightarrow>
      session_within d h t ns source evs = Inr (run (subscribe h t ns source) evs)) \<and>
   (list_all immediate (Src source # h ns) \<and> d \<le> length (h ns) \<longrightarrow>
      (case session_within d h t ns source evs of
         Inl f \<Rightarrow> queue (left_behind f) = drop d (h ns) \<and> \<not> sub_closed (left_behind f)
       | Inr s'' \<Rightarrow> False))"
proof -
  have a: "consumed (Src source # h ns) s \<and> 0 < shifted s \<and> 0 \<in> set (map src (inners s)) \<and>
      (\<not> sub_closed s \<longrightarrow> alive s (shifted s - 1)) \<and>
      (Unsubscribe \<notin> set evs \<and> list_all cancel_free (Src source # h ns) \<and> sub_closed s \<longrightarrow>
         queue s = [] \<and> shifted s = Suc (length (h ns))) \<and>
      (session_within d h t ns source (evs @ [Emit k n]) = Inr s' \<and> alive s k \<and> \<not> is_next n \<longrightarrow>
         \<not> alive s' k \<and>
         (if queue s = [] then sub_closed s' \<and> out s' = out s @ [Complete]
          else shifted s < shifted s'))"
    if r: "session_within d h t ns source evs = Inr s"
  proof -
    have s: "s = run (subscribe h t ns source) evs"
      using r by (rule session_within_Inr)
    note p = progress [OF s]
    have "\<not> alive s' k \<and>
         (if queue s = [] then sub_closed s' \<and> out s' = out s @ [Complete]
          else shifted s < shifted s')"
      if "session_within d h t ns source (evs @ [Emit k n]) = Inr s'" "alive s k" "\<not> is_next n"
      using terminal_progress [OF s session_within_Inr [OF that(1)] that(2,3)] by simp
    with p show ?thesis
      by blast
  qed
  have b: "session_within d h t ns source evs = Inr (run (subscribe h t ns source) evs)"
    if "length (h ns) < d"
    using that by (rule session_within_enough)
  have c: "(case session_within d h t ns source evs of
         Inl f \<Rightarrow> queue (left_behind f) = drop d (h ns) \<and> \<not> sub_closed (left_behind f)
       | Inr s'' \<Rightarrow> False)"
    if "list_all immediate (Src source # h ns)" "d \<le> length (h ns)"
    using that session_overflow(1,2,4) [where h = h and ns = ns and source = source and d = d
        and t = t and evs = evs]
    by (cases "session_within d h t ns source evs") simp_all
  from a b c show ?thesis
    by (simp only: queue_start) blast
qed

theorem sources_consumed_in_order_witness:
  "onErrorResumeNext_within 5 [Invalid, Src [Notify (Error (0::nat))], Src [], Src []]
       [Notify (Next (1::nat))] [Emit 0 Complete]
     = Inr (run (onErrorResumeNext [Invalid, Src [Notify (Error 0)], Src [], Src []]
         [Notify (Next 1)]) [Emit 0 Complete]) \<and>
   onErrorResumeNext_within 5 [Invalid, Src [Notify (Error (0::nat))], Src [], Src []]
       [Notify (Next (1::nat))] ([Emit 0 Complete] @ [Emit 3 Complete])
     = Inr (run (onErrorResumeNext [Invalid, Src [Notify (Error 0)], Src [], Src []]
         [Notify (Next 1)]) [Emit 0 Complete, Emit 3 Complete]) \<and>
   shifted (run (onErrorResumeNext [Invalid, Src [Notify (Error (0::nat))], Src [], Src []]
       [Notify (Next (1::nat))]) [Emit 0 Complete]) = 4 \<and>
   queue (run (onErrorResumeNext [Invalid, Src [Notify (Error (0::nat))], Src [], Src []]
       [Notify (Next (1::nat))]) [Emit 0 Complete]) = [Src []] \<and>
   rev (map src (inners (run (onErrorResumeNext [Invalid, Src [Notify (Error (0::nat))], Src [], Src []]
       [Notify (Next (1::nat))]) [Emit 0 Complete]))) = [0, 2, 3] \<and>
   \<not> sub_closed (run (onErrorResumeNext [Invalid, Src [Notify (Error (0::nat))], Src [], Src []]
       [Notify (Next (1::nat))]) [Emit 0 Complete]) \<and>
   alive (run (onErrorResumeNext [Invalid, Src [Notify (Error (0::nat))], Src [], Src []]
       [Notify (Next (1::nat))]) [Emit 0 Complete]) 3 \<and>
   \<not> is_next (Complete :: (nat, nat) notif) \<and>
   \<not> alive (run (onErrorResumeNext [Invalid, Src [Notify (Error (0::nat))], Src [], Src []]
       [Notify (Next (1::nat))]) [Emit 0 Complete, Emit 3 Complete]) 3 \<and>
   shifted (run (onErrorResumeNext [Invalid, Src [Notify (Error (0::nat))], Src [], Src []]
       [Notify (Next (1::nat))]) [Emit 0 Complete, Emit 3 Complete]) = 5 \<and>
   Unsubscribe \<notin> set [Emit 0 Complete, Emit 3 Complete, Emit 4 (Error (0::nat)) :: (nat, nat) event] \<and>
   list_all cancel_free [Src [Notify (Next (1::nat))], Invalid, Src [Notify (Error (0::nat))], Src [], Src []] \<and>
   sub_closed (run (onErrorResumeNext [Invalid, Src [Notify (Error (0::nat))], Src [], Src []]
       [Notify (Next (1::nat))]) [Emit 0 Complete, Emit 3 Complete, Emit 4 (Error 0)]) \<and>
   shifted (run (onErrorResumeNext [Invalid, Src [Notify (Error (0::nat))], Src [], Src []]
       [Notify (Next (1::nat))]) [Emit 0 Complete, Emit 3 Complete, Emit 4 (Error 0)]) = 5 \<and>
   list_all immediate [Src [Notify Complete], Src [Notify (Complete :: (nat, nat) notif)],
       Src [Notify (Next 4), Notify (Error 0)]] \<and>
   (case onErrorResumeNext_within 1 [Src [Notify Complete], Src [Notify (Next (4::nat)), Notify (Error (0::nat))]]
        [Notify Complete] [] of
      Inl f \<Rightarrow> queue (left_behind f) = [Src [Notify (Next 4), Notify (Error 0)]]
    | Inr s \<Rightarrow> False)"
  using sources_consumed_in_order [of "(\<lambda>_. [])(0 := [Invalid, Src [Notify (Error (0::nat))], Src [], Src []])"
      1 0 "[Notify (Next (1::nat))]" 5 "[Emit 0 Complete]"
      "run (onErrorResumeNext [Invalid, Src [Notify (Error 0)], Src [], Src []]
         [Notify (Next 1)]) [Emit 0 Complete]"
      3 Complete
      "run (onErrorResumeNext [Invalid, Src [Notify (Error 0)], Src [], Src []]
         [Notify (Next 1)]) [Emit 0 Complete, Emit 3 Complete]"]
    sources_consumed_in_order [of "(\<lambda>_. [])(0 := [Invalid, Src [Notify (Error (0::nat))], Src [], Src []])"
      1 0 "[Notify (Next (1::nat))]" 5 "[Emit 0 Complete, Emit 3 Complete, Emit 4 (Error 0)]"
      "run (onErrorResumeNext [Invalid, Src [Notify (Error 0)], Src [], Src []]
         [Notify (Next 1)]) [Emit 0 Complete, Emit 3 Complete, Emit 4 (Error 0)]"
      0 Complete
      "run (onErrorResumeNext [Invalid, Src [Notify (Error 0)], Src [], Src []]
         [Notify (Next 1)]) [Emit 0 Complete, Emit 3 Complete, Emit 4 (Error 0)]"]
    sources_consumed_in_order [of "(\<lambda>_. [])(0 := [Src [Notify Complete], Src [Notify (Next (4::nat)), Notify (Error (0::nat))]])"
      1 0 "[Notify Complete]" 1 "[]" "onErrorResumeNext [] []" 0 Complete "onErrorResumeNext [] []"]
  by (simp add: eval_defs within_defs cancel_free_def consumed_def)

theorem sources_skipped_counterexample:
  "isl (onErrorResumeNext_within 10000 (replicate 100000 (Src [Notify (Next 7), Notify Complete]))
     ([Notify (Next (1::nat)), Notify (Error (0::nat))]) []) \<and>
   queue (left_behind (projl (onErrorResumeNext_within 10000
     (replicate 100000 (Src [Notify (Next 7), Notify Complete]))
     ([Notify (Next (1::nat)), Notify (Error (0::nat))]) [])))
     = replicate 90000 (Src [Notify (Next 7), Notify Complete]) \<and>
   \<not> sub_closed (left_behind (projl (onErrorResumeNext_within 10000
     (replicate 100000 (Src [Notify (Next 7), Notify Complete]))
     ([Notify (Next (1::nat)), Notify (Error (0::nat))]) [])))"
proof -
  have "list_all immediate (Src [Notify (Next (1::nat)), Notify (Error (0::nat))]
      # replicate 100000 (Src [Notify (Next 7), Notify Complete]))"
    by (simp add: list_all_iff)
  from operator_overflow(1,2,4) [OF this, of 10000 "[]"] show ?thesis
    by simp
qed

text \<open>
  Claim C3. The primary source emits \<open>a\<close>, \<open>b\<close> and completes, the first fallback emits
  \<open>c\<close> and errors, the second emits \<open>d\<close> and completes: the sink receives \<open>next(a)\<close>,
  \<open>next(b)\<close>, \<open>next(c)\<close>, \<open>next(d)\<close>, \<open>complete\<close> and nothing else, whether the sources
  do this during their subscribe calls or afterwards. In every run, the entries the
  received values came from are in non-decreasing position: no value of a later entry
  precedes a value of an earlier one.
\<close>

theorem ordering_across_sources:
  "out (onErrorResumeNext
      [Src [Notify (Next c), Notify (Error e)], Src [Notify (Next d), Notify Complete]]
      [Notify (Next a), Notify (Next b), Notify Complete])
     = [Next a, Next b, Next c, Next d, Complete] \<and>
   out (run (onErrorResumeNext [Src [], Src []] [])
      [Emit 0 (Next a), Emit 0 (Next b), Emit 0 Complete, Emit 1 (Next c), Emit 1 (Error e),
       Emit 2 (Next d), Emit 2 Complete])
     = [Next a, Next b, Next c, Next d, Complete] \<and>
   sorted (origin (run (subscribe h t ns source) evs)) \<and>
   length (origin (run (subscribe h t ns source) evs)) =
     length (filter is_next (out (run (subscribe h t ns source) evs)))"
proof -
  have "sorted (origin (run (subscribe h t ns source) evs))"
    using reach_wf [of h t ns source evs] by (simp add: wf_def)
  moreover have "length (origin (run (subscribe h t ns source) evs)) =
     length (filter is_next (out (run (subscribe h t ns source) evs)))"
    by (rule origin_moves [OF moves_reach [of True]]) (simp_all add: start_def)
  ultimately show ?thesis
    by (simp add: eval_defs)
qed

theorem ordering_across_sources_witness:
  "origin (run (onErrorResumeNext [Invalid, Src [Notify (Next 3)]] [Notify (Next (1::nat))])
     [Emit 0 (Next 2), Emit 2 (Next 9), Emit 0 (Error (0::nat)), Emit 0 (Next 8), Emit 2 (Next 4)])
     = [0, 0, 2, 2] \<and>
   out (run (onErrorResumeNext [Invalid, Src [Notify (Next 3)]] [Notify (Next (1::nat))])
     [Emit 0 (Next 2), Emit 2 (Next 9), Emit 0 (Error (0::nat)), Emit 0 (Next 8), Emit 2 (Next 4)])
     = [Next 1, Next 2, Next 3, Next 4]"
  using ordering_across_sources [of 0 0 0 0 0 "(\<lambda>_. [])(0 := [Invalid, Src [Notify (Next 3)]])"
      1 0 "[Notify (Next (1::nat))]"
      "[Emit 0 (Next 2), Emit 2 (Next 9), Emit 0 (Error (0::nat)), Emit 0 (Next 8), Emit 2 (Next 4)]"]
  by (simp add: eval_defs)



text \<open>
  Claim C5. When the consumer unsubscribes, in whatever state the run is, the subscriber
  is closed and no inner subscriber stays open; the sink has received nothing more, no
  entry has left the array, none was converted and none subscribed; and whatever happens
  afterwards changes nothing: the state, with its output, its array and its inner
  subscribers, stays as the cancellation left it. The same holds when the consumer
  unsubscribes while the primary source is being subscribed: the subscribe call returns
  with the subscriber closed, the primary's inner subscriber finalized and every
  fallback still in the array.
\<close>

theorem cancellation_halts:
  "sub_closed (run (subscribe h t ns source) (evs @ [Unsubscribe])) \<and>
   idle (run (subscribe h t ns source) (evs @ [Unsubscribe])) \<and>
   out (run (subscribe h t ns source) (evs @ [Unsubscribe])) =
     out (run (subscribe h t ns source) evs) \<and>
   queue (run (subscribe h t ns source) (evs @ [Unsubscribe])) =
     queue (run (subscribe h t ns source) evs) \<and>
   shifted (run (subscribe h t ns source) (evs @ [Unsubscribe])) =
     shifted (run (subscribe h t ns source) evs) \<and>
   map src (inners (run (subscribe h t ns source) (evs @ [Unsubscribe]))) =
     map src (inners (run (subscribe h t ns source) evs)) \<and>
   run (subscribe h t ns source) (evs @ Unsubscribe # evs') =
     run (subscribe h t ns source) (evs @ [Unsubscribe]) \<and>
   sub_closed (subscribe h t ns (acts @ Cancel # acts')) \<and>
   idle (subscribe h t ns (acts @ Cancel # acts')) \<and>
   queue (subscribe h t ns (acts @ Cancel # acts')) = h ns \<and>
   shifted (subscribe h t ns (acts @ Cancel # acts')) = 1 \<and>
   run (subscribe h t ns (acts @ Cancel # acts')) evs' = subscribe h t ns (acts @ Cancel # acts')"
proof -
  let ?s = "run (subscribe h t ns source) evs"
  have w: "wf True ?s"
    by (rule reach_wf)
  have c: "run (subscribe h t ns source) (evs @ [Unsubscribe]) = step ?s Unsubscribe"
    by (simp add: run_def)
  have "run (subscribe h t ns source) (evs @ Unsubscribe # evs') = run (step ?s Unsubscribe) evs'"
    by (simp add: run_def)
  also have "\<dots> = step ?s Unsubscribe"
    by (rule run_closed [OF step_wf [OF w] cancel_effect(1) [OF w]])
  finally have "run (subscribe h t ns source) (evs @ Unsubscribe # evs') =
     run (subscribe h t ns source) (evs @ [Unsubscribe])"
    by (simp add: c)
  moreover have "run (subscribe h t ns (acts @ Cancel # acts')) evs'
      = subscribe h t ns (acts @ Cancel # acts')"
    by (rule run_closed [OF wf_subscribe subscribe_cancelled(1)])
  ultimately show ?thesis
    using cancel_effect [OF w] subscribe_cancelled [of h t ns acts acts'] by (simp add: c)
qed

theorem cancellation_halts_witness:
  "inners (run (onErrorResumeNext [Src [Notify (Next (3::nat))], Src []] [Notify (Next 1)])
      [Emit 0 (Next 2), Unsubscribe, Emit 0 (Next 4), Emit 0 (Error (0::nat)), Emit 1 Complete])
     = [\<lparr>src = 0, i_closed = True, i_stopped = True, hooked = False\<rparr>] \<and>
   out (run (onErrorResumeNext [Src [Notify (Next (3::nat))], Src []] [Notify (Next 1)])
      [Emit 0 (Next 2), Unsubscribe, Emit 0 (Next 4), Emit 0 (Error (0::nat)), Emit 1 Complete])
     = [Next 1, Next 2] \<and>
   queue (run (onErrorResumeNext [Src [Notify (Next (3::nat))], Src []] [Notify (Next 1)])
      [Emit 0 (Next 2), Unsubscribe, Emit 0 (Next 4), Emit 0 (Error (0::nat)), Emit 1 Complete])
     = [Src [Notify (Next 3)], Src []] \<and>
   out (run (onErrorResumeNext [Src [Notify (Next (3::nat))], Src []]
      ([Notify (Next 1)] @ Cancel # [Notify (Next 5), Notify Complete]))
      [Emit 0 (Next 4), Emit 0 (Error (0::nat)), Emit 1 Complete]) = [Next 1] \<and>
   inners (run (onErrorResumeNext [Src [Notify (Next (3::nat))], Src []]
      ([Notify (Next 1)] @ Cancel # [Notify (Next 5), Notify Complete]))
      [Emit 0 (Next 4), Emit 0 (Error (0::nat)), Emit 1 Complete])
     = [\<lparr>src = 0, i_closed = True, i_stopped = True, hooked = False\<rparr>]"
  using cancellation_halts [of "(\<lambda>_. [])(0 := [Src [Notify (Next (3::nat))], Src []])" 1 0
      "[Notify (Next 1)]" "[Emit 0 (Next 2)]"
      "[Emit 0 (Next 4), Emit 0 (Error (0::nat)), Emit 1 Complete]"
      "[Notify (Next 1)]" "[Notify (Next 5), Notify Complete]"]
  by (simp add: eval_defs)

text \<open>
  Claim C6. At every moment of a run at most one inner subscription is open: the number
  of open inner subscribers, measured each time \<open>subscribeNext\<close> creates one (the new one
  included), never exceeds one, so an inner subscriber is only created once its
  predecessor has finalized; and between two events at most one is open.
\<close>

theorem one_inner_at_a_time:
  "peak_alive (run (subscribe h t ns source) evs) \<le> 1 \<and>
   n_alive (run (subscribe h t ns source) evs) \<le> 1"
proof -
  have w: "wf True (run (subscribe h t ns source) evs)"
    by (rule reach_wf)
  then have "peak_alive (run (subscribe h t ns source) evs) \<le> 1"
    by (simp add: wf_def)
  with wf_n_alive [OF w] show ?thesis by simp
qed

theorem one_inner_at_a_time_witness:
  "peak_alive (run (onErrorResumeNext [Src [Notify (Next (2::nat)), Notify (Error (0::nat))], Src []]
       [Notify (Next 1)]) [Emit 0 (Next 5), Emit 0 Complete, Emit 2 (Next 7)]) = 1 \<and>
   n_alive (run (onErrorResumeNext [Src [Notify (Next (2::nat)), Notify (Error (0::nat))], Src []]
       [Notify (Next 1)]) [Emit 0 (Next 5), Emit 0 Complete, Emit 2 (Next 7)]) = 1"
  using one_inner_at_a_time [of "(\<lambda>_. [])(0 := [Src [Notify (Next (2::nat)), Notify (Error (0::nat))], Src []])"
      1 0 "[Notify (Next 1)]" "[Emit 0 (Next 5), Emit 0 Complete, Emit 2 (Next 7)]"]
  by code_simp

text \<open>
  Claim C7. With no fallback, a primary source that emits any values and then errors,
  during its subscribe call or afterwards, makes the operator advance into the empty
  array and complete: the sink receives the values and then \<open>complete\<close>, never the error.
\<close>

theorem error_becomes_complete:
  "out (onErrorResumeNext [] (map (\<lambda>v. Notify (Next v)) vs @ [Notify (Error e)]))
     = map Next vs @ [Complete] \<and>
   out (run (onErrorResumeNext [] []) (map (\<lambda>v. Emit 0 (Next v)) vs @ [Emit 0 (Error e)]))
     = map Next vs @ [Complete]"
proof -
  let ?script = "map (\<lambda>v. Notify (Next v)) vs @ [Notify (Error e)]"
  have "Cancel \<notin> set ?script"
    by auto
  then have "list_all immediate [Src ?script]"
    by (simp add: emitted_values)
  from drain_operator(1) [OF this]
  have "out (onErrorResumeNext [] ?script) = map Next vs @ [Complete]"
    by (simp add: emitted_values)
  then show ?thesis
    by (simp add: lone_source_run)
qed

theorem error_becomes_complete_witness:
  "out (onErrorResumeNext [] [Notify (Next (1::nat)), Notify (Next 2), Notify (Error (7::nat))])
     = [Next 1, Next 2, Complete] \<and>
   out (run (onErrorResumeNext [] []) [Emit 0 (Next (1::nat)), Emit 0 (Next 2), Emit 0 (Error (7::nat))])
     = [Next 1, Next 2, Complete]"
  using error_becomes_complete [of "[1, 2 :: nat]" "7 :: nat"]
  by simp

text \<open>
  Claim C8, as the code has it. A chain of \<open>n\<close> fallbacks that each complete during their
  subscribe call, a thousand of them for one, is drained entirely within the first call
  of \<open>subscribeNext\<close> when the stack has room for \<open>n + 1\<close> activations nested in that
  call: the sink receives \<open>complete\<close>, the subscriber is closed and the array is empty.
  The advancement is recursive: every source that is finished when its subscribe call
  returns adds one nested activation of \<open>subscribeNext\<close>, so the chain and its primary
  source nest \<open>n + 2\<close> activations, 1002 for a thousand fallbacks, and on a stack with
  room for fewer the call ends in a \<open>RangeError\<close> with no \<open>complete\<close> delivered and the
  rest of the chain still in the array.
\<close>

theorem synchronous_chain_drains:
  "(n < d \<longrightarrow>
      (case onErrorResumeNext_within d (replicate n (Src [Notify Complete]))
           ([Notify Complete] :: ('a, 'e) sact list) [] of
         Inl f \<Rightarrow> False
       | Inr s \<Rightarrow> out s = [Complete] \<and> sub_closed s \<and> queue s = [])) \<and>
   (d \<le> n \<longrightarrow>
      (case onErrorResumeNext_within d (replicate n (Src [Notify Complete]))
           ([Notify Complete] :: ('a, 'e) sact list) [] of
         Inl f \<Rightarrow> out (left_behind f) = [] \<and>
           queue (left_behind f) = replicate (n - d) (Src [Notify Complete])
       | Inr s \<Rightarrow> False)) \<and>
   subscribeNext_depth
     (start ((\<lambda>_. [])(0 := replicate n (Src [Notify Complete]))) 1 0
        ([Notify Complete] :: ('a, 'e) sact list)) = n + 2"
proof -
  let ?fs = "replicate n (Src [Notify Complete]) :: ('a, 'e) entry list"
  have a: "(case onErrorResumeNext_within d ?fs [Notify Complete] [] of
         Inl f \<Rightarrow> False
       | Inr s \<Rightarrow> out s = [Complete] \<and> sub_closed s \<and> queue s = [])" if "n < d"
  proof -
    have "case onErrorResumeNext_within d ?fs [Notify Complete] [] of
        Inl f \<Rightarrow> False
      | Inr s \<Rightarrow> out s = map Next (concat (map entry_values (Src [Notify Complete] # ?fs))) @ [Complete] \<and>
          sub_closed s \<and> queue s = []"
      using that by (intro immediate_within(1) [OF chain_immediate(1)]) simp
    then show ?thesis
      by (auto split: sum.splits)
  qed
  have b: "(case onErrorResumeNext_within d ?fs [Notify Complete] [] of
         Inl f \<Rightarrow> out (left_behind f) = [] \<and>
           queue (left_behind f) = replicate (n - d) (Src [Notify Complete])
       | Inr s \<Rightarrow> False)" if "d \<le> n"
  proof -
    have "case onErrorResumeNext_within d ?fs [Notify Complete] [] of
        Inl f \<Rightarrow> out (left_behind f)
            = map Next (concat (map entry_values (take (Suc d) (Src [Notify Complete] # ?fs)))) \<and>
          queue (left_behind f) = drop d ?fs \<and> \<not> sub_closed (left_behind f)
      | Inr s \<Rightarrow> False"
      using that by (intro immediate_within(2) [OF chain_immediate(1)]) simp
    then show ?thesis
      by (auto split: sum.splits)
  qed
  from a b chain_depth [of n] show ?thesis
    by blast
qed

theorem synchronous_chain_drains_witness:
  "(1000::nat) < 1001 \<and>
   (case onErrorResumeNext_within 1001 (replicate 1000 (Src [Notify Complete]))
        ([Notify Complete] :: (nat, nat) sact list) [] of
      Inl f \<Rightarrow> False
    | Inr s \<Rightarrow> out s = [Complete] \<and> sub_closed s \<and> queue s = []) \<and>
   (1000::nat) \<le> 1000 \<and>
   (case onErrorResumeNext_within 1000 (replicate 1000 (Src [Notify Complete]))
        ([Notify Complete] :: (nat, nat) sact list) [] of
      Inl f \<Rightarrow> out (left_behind f) = [] \<and> queue (left_behind f) = []
    | Inr s \<Rightarrow> False) \<and>
   (case onErrorResumeNext_within 2 [Src [Notify Complete], Src [Notify Complete], Src [Notify Complete]]
        ([Notify Complete] :: (nat, nat) sact list) [] of
      Inl f \<Rightarrow> out (left_behind f) = [] \<and> queue (left_behind f) = [Src [Notify Complete]]
    | Inr s \<Rightarrow> False) \<and>
   subscribeNext_depth
     (start ((\<lambda>_. [])(0 := replicate 1000 (Src [Notify Complete]))) 1 0
        ([Notify Complete] :: (nat, nat) sact list)) = 1002"
proof -
  have "case onErrorResumeNext_within 2 [Src [Notify Complete], Src [Notify Complete], Src [Notify Complete]]
        ([Notify Complete] :: (nat, nat) sact list) [] of
      Inl f \<Rightarrow> out (left_behind f) = [] \<and> queue (left_behind f) = [Src [Notify Complete]]
    | Inr s \<Rightarrow> False"
    by (simp add: eval_defs within_defs)
  with synchronous_chain_drains [where n = 1000 and d = 1001 and 'a = nat and 'e = nat]
    synchronous_chain_drains [where n = 1000 and d = 1000 and 'a = nat and 'e = nat]
  show ?thesis
    by (auto split: sum.splits)
qed

theorem iterative_advancement_counterexample:
  "subscribeNext_depth
     (start ((\<lambda>_. [])(0 := replicate 1000 (Src [Notify Complete]))) 1 0
        [Notify (Complete :: (nat, nat) notif)]) = 1002 \<and>
   isl (onErrorResumeNext_within 10000 (replicate 100000 (Src [Notify Complete]))
     [Notify (Complete :: (nat, nat) notif)] [])"
proof -
  have "subscribeNext_depth
     (start ((\<lambda>_. [])(0 := replicate 1000 (Src [Notify Complete]))) 1 0
        [Notify (Complete :: (nat, nat) notif)]) = 1000 + 2"
    by (rule chain_depth)
  moreover have "isl (onErrorResumeNext_within 10000 (replicate 100000 (Src [Notify Complete]))
     [Notify (Complete :: (nat, nat) notif)] [])"
    by (rule operator_overflow(1) [OF chain_immediate(1)]) simp
  ultimately show ?thesis
    by simp
qed

text \<open>
  Claim C9. With no fallback, a primary source that emits \<open>x\<close>, \<open>y\<close> (or any values) and
  completes yields exactly these values followed by \<open>complete\<close>, the notifications of the
  source itself.
\<close>

theorem identity_on_completing_source:
  "out (onErrorResumeNext [] (map (\<lambda>v. Notify (Next v)) vs @ [Notify Complete]))
     = map Next vs @ [Complete] \<and>
   out (run (onErrorResumeNext [] []) (map (\<lambda>v. Emit 0 (Next v)) vs @ [Emit 0 Complete]))
     = map Next vs @ [Complete] \<and>
   out (onErrorResumeNext [] [Notify (Next x), Notify (Next y), Notify Complete])
     = [Next x, Next y, Complete]"
proof -
  have d: "out (onErrorResumeNext [] (map (\<lambda>v. Notify (Next v)) ws @ [Notify Complete]))
    = map Next ws @ [Complete]" for ws
  proof -
    let ?script = "map (\<lambda>v. Notify (Next v)) ws @ [Notify Complete]"
    have "Cancel \<notin> set ?script"
      by auto
    then have "list_all immediate [Src ?script]"
      by (simp add: emitted_values)
    from drain_operator(1) [OF this] show ?thesis
      by (simp add: emitted_values)
  qed
  from d [of vs] d [of "[x, y]"] show ?thesis
    by (simp add: lone_source_run)
qed

theorem identity_on_completing_source_witness:
  "out (run (onErrorResumeNext [] []) [Emit 0 (Next (1::nat)), Emit 0 (Next 2), Emit 0 (Complete :: (nat, nat) notif)])
     = [Next 1, Next 2, Complete]"
proof -
  have "out (run (onErrorResumeNext [] [])
      (map (\<lambda>v. Emit 0 (Next v)) [1, 2 :: nat] @ [Emit 0 (Complete :: (nat, nat) notif)]))
    = map Next [1, 2] @ [Complete]"
    by (rule conjunct1 [OF conjunct2 [OF identity_on_completing_source]])
  then show ?thesis
    by simp
qed

text \<open>
  Claim C10. A subscription allocates its own array (line 86) and \<open>shift\<close> works on that
  one alone: every array that existed before the subscription, the caller's
  \<open>nextSources\<close> among them, holds after any run, completed, errored through or
  cancelled, the entries it held before, in their order.
\<close>

theorem caller_array_untouched:
  "a < t \<Longrightarrow> heap (run (subscribe h t ns source) evs) a = h a"
  using frame_moves [OF moves_reach [of True evs source h ns t]]
  by (simp add: start_def)

theorem caller_array_untouched_witness:
  "(0::nat) < 1 \<and>
   heap (run (onErrorResumeNext [Src [Notify (Next (3::nat))], Invalid] [Notify (Error (0::nat))])
     [Emit 1 Complete, Unsubscribe]) 0 = [Src [Notify (Next 3)], Invalid] \<and>
   queue (run (onErrorResumeNext [Src [Notify (Next (3::nat))], Invalid] [Notify (Error (0::nat))])
     [Emit 1 Complete, Unsubscribe]) = []"
  using caller_array_untouched [of 0 1 "(\<lambda>_. [])(0 := [Src [Notify (Next (3::nat))], Invalid])"
      0 "[Notify (Error (0::nat))]" "[Emit 1 Complete, Unsubscribe]"]
  by (simp add: eval_defs)

end
